theory Spec2Isabelle
  imports Complex_Main "HOL-Library.Sublist" "HOL-Library.AList"
begin

section \<open>Python strings\<close>

text \<open>
  A Python \<open>str\<close> is modelled as a \<open>string\<close>; a character stands for the code point
  of the same number, so the model covers the code points below 256. The string methods
  the scraper calls are written out for these code points.
\<close>

definition py_isspace :: "char \<Rightarrow> bool" where
  \<comment> \<open>the characters \<open>str.strip()\<close> removes: TAB, LF, VT, FF, CR, FS, GS, RS, US, space,
      NEL and the no-break space\<close>
  "py_isspace c =
     (let n = (of_char c :: nat)
      in (9 \<le> n \<and> n \<le> 13) \<or> (28 \<le> n \<and> n \<le> 32) \<or> n = 133 \<or> n = 160)"

definition py_strip :: "string \<Rightarrow> string" where
  "py_strip s = rev (dropWhile py_isspace (rev (dropWhile py_isspace s)))"

definition py_lower_char :: "char \<Rightarrow> char" where
  \<comment> \<open>\<open>A\<close>..\<open>Z\<close> and the Latin-1 capitals (all of 192..222 but the multiplication sign 215)\<close>
  "py_lower_char c =
     (let n = (of_char c :: nat)
      in if (65 \<le> n \<and> n \<le> 90) \<or> (192 \<le> n \<and> n \<le> 222 \<and> n \<noteq> 215)
         then char_of (n + 32) else c)"

definition py_lower :: "string \<Rightarrow> string" where
  "py_lower s = map py_lower_char s"

fun py_split :: "char \<Rightarrow> string \<Rightarrow> string list" where
  "py_split sep [] = [[]]"
| "py_split sep (c # cs) =
     (if c = sep then [] # py_split sep cs
      else (case py_split sep cs of
              [] \<Rightarrow> [[c]]
            | w # ws \<Rightarrow> (c # w) # ws))"

fun py_join :: "char \<Rightarrow> string list \<Rightarrow> string" where
  "py_join sep [] = []"
| "py_join sep [w] = w"
| "py_join sep (w # v # ws) = w @ sep # py_join sep (v # ws)"

definition before_first :: "char \<Rightarrow> string \<Rightarrow> string" where
  \<comment> \<open>\<open>s[:s.find(c)]\<close> when \<open>c\<close> occurs in \<open>s\<close>\<close>
  "before_first c s = takeWhile (\<lambda>x. x \<noteq> c) s"

definition after_first :: "char \<Rightarrow> string \<Rightarrow> string" where
  \<comment> \<open>\<open>s[s.find(c)+1:]\<close> when \<open>c\<close> occurs in \<open>s\<close>\<close>
  "after_first c s = tl (dropWhile (\<lambda>x. x \<noteq> c) s)"

fun digits :: "nat \<Rightarrow> string" where
  "digits n =
     (if n < 10 then [char_of (48 + n)]
      else digits (n div 10) @ [char_of (48 + n mod 10)])"

declare digits.simps [simp del]

definition str_int :: "int \<Rightarrow> string" where
  \<comment> \<open>\<open>str(page)\<close>, which \<open>str.format\<close> inserts\<close>
  "str_int i = (if i < 0 then CHR ''-'' # digits (nat (- i)) else digits (nat i))"

text \<open>
  The exceptions that the program can meet: \<open>requests.RequestException\<close> (with its
  subclasses: connection errors, timeouts, \<open>HTTPError\<close> of \<open>raise_for_status\<close>),
  \<open>ValueError\<close> (of \<open>urljoin\<close> and of \<open>time.sleep\<close>), \<open>OSError\<close> (of \<open>open\<close>), and any
  other exception.
\<close>

datatype exn = RequestException | ValueError | OSError | OtherException

section \<open>The library function \<open>urllib.parse.urljoin\<close>\<close>

text \<open>
  The scraper resolves every link with \<open>urljoin\<close>. The model follows \<open>urllib/parse.py\<close> of
  CPython 3.11 function by function. One check of the library is left out: the text between
  the brackets of a bracketed host is not validated as an IPv6 or IPvFuture address (a
  netloc with both brackets is accepted); the NFKC check of the netloc never fails on the
  code points below 256.
\<close>

definition uses_relative :: "string list" where
  "uses_relative = ['''', ''ftp'', ''http'', ''gopher'', ''nntp'', ''imap'',
     ''wais'', ''file'', ''https'', ''shttp'', ''mms'',
     ''prospero'', ''rtsp'', ''rtsps'', ''rtspu'', ''sftp'',
     ''svn'', ''svn+ssh'', ''ws'', ''wss'']"

definition uses_netloc :: "string list" where
  "uses_netloc = ['''', ''ftp'', ''http'', ''gopher'', ''nntp'', ''telnet'',
     ''imap'', ''wais'', ''file'', ''mms'', ''https'', ''shttp'',
     ''snews'', ''prospero'', ''rtsp'', ''rtsps'', ''rtspu'', ''rsync'',
     ''svn'', ''svn+ssh'', ''sftp'', ''nfs'', ''git'', ''git+ssh'',
     ''ws'', ''wss'']"

definition uses_params :: "string list" where
  "uses_params = ['''', ''ftp'', ''hdl'', ''prospero'', ''http'', ''imap'',
     ''https'', ''shttp'', ''rtsp'', ''rtsps'', ''rtspu'', ''sip'',
     ''sips'', ''mms'', ''sftp'', ''tel'']"

definition scheme_chars :: string where
  "scheme_chars =
     ''abcdefghijklmnopqrstuvwxyzABCDEFGHIJKLMNOPQRSTUVWXYZ0123456789+-.''"

definition c0_control_or_space :: "char \<Rightarrow> bool" where
  "c0_control_or_space c = ((of_char c :: nat) \<le> 32)"

definition remove_unsafe :: "string \<Rightarrow> string" where
  \<comment> \<open>TAB, CR and LF are deleted wherever they stand\<close>
  "remove_unsafe s = filter (\<lambda>c. c \<notin> {CHR 0x09, CHR 0x0D, CHR 0x0A}) s"

definition ascii_alpha :: "char \<Rightarrow> bool" where
  "ascii_alpha c =
     (let n = (of_char c :: nat) in (65 \<le> n \<and> n \<le> 90) \<or> (97 \<le> n \<and> n \<le> 122))"

definition splitnetloc :: "string \<Rightarrow> string \<times> string" where
  \<comment> \<open>\<open>_splitnetloc(url, 2)\<close>: the netloc ends at the first of \<open>/ ? #\<close>\<close>
  "splitnetloc url =
     (let rest = drop 2 url;
          delim = (\<lambda>c. c \<in> {CHR ''/'', CHR ''?'', CHR ''#''})
      in (takeWhile (\<lambda>c. \<not> delim c) rest, dropWhile (\<lambda>c. \<not> delim c) rest))"

definition urlsplit :: "string \<Rightarrow> string \<Rightarrow> exn + string \<times> string \<times> string \<times> string \<times> string" where
  "urlsplit url0 scheme0 =
     (let url1 = remove_unsafe (dropWhile c0_control_or_space url0);
          scheme1 = remove_unsafe
            (rev (dropWhile c0_control_or_space (rev (dropWhile c0_control_or_space scheme0))));
          has_scheme = (CHR '':'' \<in> set url1 \<and> before_first CHR '':'' url1 \<noteq> []
                        \<and> ascii_alpha (hd url1)
                        \<and> (\<forall>c \<in> set (before_first CHR '':'' url1). c \<in> set scheme_chars));
          scheme = (if has_scheme then py_lower (before_first CHR '':'' url1) else scheme1);
          url2 = (if has_scheme then after_first CHR '':'' url1 else url1);
          slashes = (take 2 url2 = ''//'');
          netloc = (if slashes then fst (splitnetloc url2) else []);
          url3 = (if slashes then snd (splitnetloc url2) else url2)
      in if slashes \<and> ((CHR ''['' \<in> set netloc \<and> CHR '']'' \<notin> set netloc)
                       \<or> (CHR '']'' \<in> set netloc \<and> CHR ''['' \<notin> set netloc))
         then Inl ValueError
         else
           let fragment = (if CHR ''#'' \<in> set url3 then after_first CHR ''#'' url3 else []);
               url4 = (if CHR ''#'' \<in> set url3 then before_first CHR ''#'' url3 else url3);
               query = (if CHR ''?'' \<in> set url4 then after_first CHR ''?'' url4 else []);
               url5 = (if CHR ''?'' \<in> set url4 then before_first CHR ''?'' url4 else url4)
           in Inr (scheme, netloc, url5, query, fragment))"

definition splitparams :: "string \<Rightarrow> string \<times> string" where
  \<comment> \<open>\<open>_splitparams\<close>, which \<open>urlparse\<close> calls only on a path with a semicolon: the
      parameters start at the first semicolon of the last path segment\<close>
  "splitparams url =
     (if CHR ''/'' \<in> set url then
        let last_seg = rev (takeWhile (\<lambda>c. c \<noteq> CHR ''/'') (rev url));
            front = take (length url - length last_seg) url
        in if CHR '';'' \<notin> set last_seg then (url, [])
           else (front @ before_first CHR '';'' last_seg, after_first CHR '';'' last_seg)
      else (before_first CHR '';'' url, after_first CHR '';'' url))"

definition urlparse ::
  "string \<Rightarrow> string \<Rightarrow> exn + string \<times> string \<times> string \<times> string \<times> string \<times> string" where
  "urlparse url0 scheme0 =
     (case urlsplit url0 scheme0 of
        Inl e \<Rightarrow> Inl e
      | Inr (scheme, netloc, url, query, fragment) \<Rightarrow>
          if scheme \<in> set uses_params \<and> CHR '';'' \<in> set url
          then Inr (scheme, netloc, fst (splitparams url), snd (splitparams url), query, fragment)
          else Inr (scheme, netloc, url, [], query, fragment))"

definition urlunsplit :: "string \<times> string \<times> string \<times> string \<times> string \<Rightarrow> string" where
  "urlunsplit components =
     (case components of (scheme, netloc, url0, query, fragment) \<Rightarrow>
        let url1 = (if netloc \<noteq> [] \<or> (scheme \<noteq> [] \<and> scheme \<in> set uses_netloc)
                        \<or> take 2 url0 = ''//''
                    then ''//'' @ netloc
                         @ (if url0 \<noteq> [] \<and> take 1 url0 \<noteq> ''/'' then CHR ''/'' # url0 else url0)
                    else url0);
            url2 = (if scheme \<noteq> [] then scheme @ CHR '':'' # url1 else url1);
            url3 = (if query \<noteq> [] then url2 @ CHR ''?'' # query else url2)
        in if fragment \<noteq> [] then url3 @ CHR ''#'' # fragment else url3)"

definition urlunparse ::
  "string \<times> string \<times> string \<times> string \<times> string \<times> string \<Rightarrow> string" where
  "urlunparse components =
     (case components of (scheme, netloc, url, params, query, fragment) \<Rightarrow>
        urlunsplit (scheme, netloc,
          (if params \<noteq> [] then url @ CHR '';'' # params else url), query, fragment))"

fun resolve_segments :: "string list \<Rightarrow> string list \<Rightarrow> string list" where
  \<comment> \<open>the loop over \<open>segments\<close>; \<open>resolved_path\<close> is the second argument\<close>
  "resolve_segments [] resolved_path = resolved_path"
| "resolve_segments (seg # segments) resolved_path =
     (if seg = ''..'' then resolve_segments segments (butlast resolved_path)
      else if seg = ''.'' then resolve_segments segments resolved_path
      else resolve_segments segments (resolved_path @ [seg]))"

definition filter_inner :: "string list \<Rightarrow> string list" where
  \<comment> \<open>\<open>segments[1:-1] = filter(None, segments[1:-1])\<close>\<close>
  "filter_inner segments =
     (if length segments < 2 then segments
      else hd segments # filter (\<lambda>s. s \<noteq> []) (butlast (tl segments)) @ [last segments])"

definition urljoin :: "string \<Rightarrow> string \<Rightarrow> exn + string" where
  "urljoin base url =
     (if base = [] then Inr url
      else if url = [] then Inr base
      else
        case urlparse base [] of
          Inl e \<Rightarrow> Inl e
        | Inr (bscheme, bnetloc, bpath, bparams, bquery, bfragment) \<Rightarrow>
        (case urlparse url bscheme of
          Inl e \<Rightarrow> Inl e
        | Inr (scheme, netloc0, path, params, query, fragment) \<Rightarrow>
            if scheme \<noteq> bscheme \<or> scheme \<notin> set uses_relative then Inr url
            else if scheme \<in> set uses_netloc \<and> netloc0 \<noteq> []
            then Inr (urlunparse (scheme, netloc0, path, params, query, fragment))
            else
              let netloc = (if scheme \<in> set uses_netloc then bnetloc else netloc0)
              in if path = [] \<and> params = []
                 then Inr (urlunparse (scheme, netloc, bpath, bparams,
                             (if query = [] then bquery else query), fragment))
                 else
                   let base_parts0 = py_split CHR ''/'' bpath;
                       base_parts = (if last base_parts0 \<noteq> [] then butlast base_parts0
                                     else base_parts0);
                       segments = (if take 1 path = ''/'' then py_split CHR ''/'' path
                                   else filter_inner (base_parts @ py_split CHR ''/'' path));
                       resolved0 = resolve_segments segments [];
                       resolved_path = (if last segments \<in> {''.'', ''..''} then resolved0 @ [[]]
                                        else resolved0);
                       joined = py_join CHR ''/'' resolved_path
                   in Inr (urlunparse (scheme, netloc, (if joined = [] then ''/'' else joined),
                             params, query, fragment))))"

section \<open>The parsed document\<close>

text \<open>
  \<open>BeautifulSoup(markup, "html.parser")\<close> is the external HTML parser. The scraper reads two
  things of the parsed document: the \<open>a\<close> elements in document order, and of each one
  its \<open>href\<close> attribute (\<open>anchor.get("href")\<close>, \<open>None\<close> when the attribute is missing)
  and its \<open>.string\<close> (the text handed to a \<open>string=\<close> filter: the one string that the
  element holds, directly or through a chain of only children, and \<open>None\<close> when there is
  no such string). A parser is a function from the markup to these anchors.
\<close>

record anchor =
  href :: "string option"
  tag_string :: "string option"

type_synonym html_parser = "string \<Rightarrow> anchor list"

section \<open>The scraper\<close>

definition BASE_URL :: string where
  "BASE_URL = ''https://www.awwwards.com''"

definition LISTING_TEMPLATE :: "int \<Rightarrow> string" where
  \<comment> \<open>\<open>LISTING_TEMPLATE.format(page=page)\<close>\<close>
  "LISTING_TEMPLATE page = ''https://www.awwwards.com/websites/?page='' @ str_int page"

definition select_sites :: "anchor list \<Rightarrow> anchor list" where
  \<comment> \<open>\<open>soup.select('a[href*="/sites/"]')\<close>: the anchors with an \<open>href\<close> attribute of which
      \<open>/sites/\<close> is a substring, in document order\<close>
  "select_sites soup =
     filter (\<lambda>a. case href a of None \<Rightarrow> False | Some h \<Rightarrow> sublist ''/sites/'' h) soup"

fun collect_links :: "anchor list \<Rightarrow> string list \<Rightarrow> exn + string list" where
  \<comment> \<open>the first loop of \<open>extract_site_links\<close>; \<open>links\<close> is the second argument\<close>
  "collect_links [] links = Inr links"
| "collect_links (a # anchors) links =
     (case href a of
        None \<Rightarrow> collect_links anchors links
      | Some h \<Rightarrow>
          if h = [] \<or> \<not> sublist ''/sites/'' h then collect_links anchors links
          else (case urljoin BASE_URL (hd (py_split CHR ''?'' h)) of
                  Inl e \<Rightarrow> Inl e
                | Inr absolute \<Rightarrow> collect_links anchors (links @ [absolute])))"

fun unique_loop :: "string list \<Rightarrow> string set \<Rightarrow> string list \<Rightarrow> string list" where
  \<comment> \<open>the second loop; \<open>seen\<close> and \<open>unique_links\<close> are the second and third arguments\<close>
  "unique_loop [] seen unique_links = unique_links"
| "unique_loop (link # links) seen unique_links =
     (if link \<notin> seen then unique_loop links (insert link seen) (unique_links @ [link])
      else unique_loop links seen unique_links)"

definition extract_site_links :: "html_parser \<Rightarrow> string \<Rightarrow> exn + string list" where
  "extract_site_links parser listing_html =
     (let soup = parser listing_html
      in case collect_links (select_sites soup) [] of
           Inl e \<Rightarrow> Inl e
         | Inr links \<Rightarrow> Inr (unique_loop links {} []))"

definition is_visit_site :: "string option \<Rightarrow> bool" where
  \<comment> \<open>\<open>lambda text: text and text.strip().lower() == "visit site"\<close>\<close>
  "is_visit_site text_opt =
     (case text_opt of
        None \<Rightarrow> False
      | Some t \<Rightarrow> t \<noteq> [] \<and> py_lower (py_strip t) = ''visit site'')"

definition extract_visit_site :: "html_parser \<Rightarrow> string \<Rightarrow> string option" where
  "extract_visit_site parser detail_html =
     (let soup = parser detail_html;
          button = find (\<lambda>a. is_visit_site (tag_string a)) soup
      in case button of
           Some b \<Rightarrow> href b
         | None \<Rightarrow> None)"

section \<open>The crawl\<close>

text \<open>
  The network is outside the program. A crawl is modelled against a \<open>fetcher\<close>: what
  \<open>requests.get\<close> (with the user agent and the timeout of \<open>fetch_html\<close>),
  \<open>raise_for_status\<close> and \<open>response.text\<close> give for a URL, as a function of everything
  the run has done before (its trace), so that the same URL may answer differently at
  different times. The answer is the markup or the exception raised.
  The run's effects are recorded in the trace: every call of \<open>fetch_html\<close> with its
  answer, labelled by the call site (the listing fetch or the detail fetch of
  \<open>scrape_awwwards\<close>), and every \<open>time.sleep\<close>.

  The result dictionary is an association list in insertion order, as a Python \<open>dict\<close>
  keeps it; \<open>results[k] = v\<close> is \<open>AList.update\<close>, which replaces the value of a present
  key in place and appends a new key at the end.
\<close>

datatype kind = Listing | Detail

datatype event = Fetch kind string "exn + string" | Sleep real

type_synonym fetcher = "event list \<Rightarrow> string \<Rightarrow> exn + string"

type_synonym result_map = "(string \<times> string option) list"

record crawl =
  results :: result_map
  trace :: "event list"

datatype flow = Continue | Return | Raise exn

definition fetch_html :: "fetcher \<Rightarrow> kind \<Rightarrow> string \<Rightarrow> event list \<Rightarrow> (exn + string) \<times> event list" where
  "fetch_html fetch k url tr = (fetch tr url, tr @ [Fetch k url (fetch tr url)])"

definition time_sleep :: "real \<Rightarrow> event list \<Rightarrow> exn + event list" where
  \<comment> \<open>\<open>time.sleep\<close> raises \<open>ValueError\<close> on a negative length\<close>
  "time_sleep secs tr = (if secs < 0 then Inl ValueError else Inr (tr @ [Sleep secs]))"

definition cap_reached :: "int option \<Rightarrow> result_map \<Rightarrow> bool" where
  \<comment> \<open>\<open>max_sites and len(results) >= max_sites\<close>\<close>
  "cap_reached max_sites rs =
     (case max_sites of
        None \<Rightarrow> False
      | Some m \<Rightarrow> m \<noteq> 0 \<and> int (length rs) \<ge> m)"

definition store_detail ::
  "html_parser \<Rightarrow> string \<Rightarrow> exn + string \<Rightarrow> result_map \<Rightarrow> exn + result_map" where
  \<comment> \<open>the \<open>try\<close> statement after the fetch: only \<open>requests.RequestException\<close> is caught\<close>
  "store_detail parser site_url answer rs =
     (case answer of
        Inr detail_html \<Rightarrow> Inr (AList.update site_url (extract_visit_site parser detail_html) rs)
      | Inl e \<Rightarrow>
          if e = RequestException then Inr (AList.update site_url None rs)
          else Inl e)"

definition visit_site ::
  "html_parser \<Rightarrow> fetcher \<Rightarrow> real \<Rightarrow> int option \<Rightarrow> string \<Rightarrow> crawl \<Rightarrow> flow \<times> crawl" where
  \<comment> \<open>the body of the loop over the links of a page; \<open>Continue\<close> goes on with the next link\<close>
  "visit_site parser fetch delay max_sites site_url st =
     (if site_url \<in> set (map fst (results st)) then (Continue, st)
      else
        let (answer, tr1) = fetch_html fetch Detail site_url (trace st)
        in case store_detail parser site_url answer (results st) of
             Inl e \<Rightarrow> (Raise e, st\<lparr>trace := tr1\<rparr>)
           | Inr rs1 \<Rightarrow>
               (case (if delay \<noteq> 0 then time_sleep delay tr1 else Inr tr1) of
                  Inl e \<Rightarrow> (Raise e, \<lparr>results = rs1, trace = tr1\<rparr>)
                | Inr tr2 \<Rightarrow>
                    if cap_reached max_sites rs1
                    then (Return, \<lparr>results = rs1, trace = tr2\<rparr>)
                    else (Continue, \<lparr>results = rs1, trace = tr2\<rparr>)))"

fun detail_loop ::
  "html_parser \<Rightarrow> fetcher \<Rightarrow> real \<Rightarrow> int option \<Rightarrow> string list \<Rightarrow> crawl \<Rightarrow> flow \<times> crawl" where
  \<comment> \<open>\<open>for site_url in extract_site_links(listing_html)\<close>\<close>
  "detail_loop parser fetch delay max_sites [] st = (Continue, st)"
| "detail_loop parser fetch delay max_sites (site_url # rest) st =
     (let (fl, st1) = visit_site parser fetch delay max_sites site_url st
      in if fl = Continue then detail_loop parser fetch delay max_sites rest st1
         else (fl, st1))"

definition visit_page ::
  "html_parser \<Rightarrow> fetcher \<Rightarrow> real \<Rightarrow> int option \<Rightarrow> int \<Rightarrow> crawl \<Rightarrow> flow \<times> crawl" where
  \<comment> \<open>the body of the loop over the pages; \<open>Continue\<close> goes on with the next page\<close>
  "visit_page parser fetch delay max_sites page st =
     (let listing_url = LISTING_TEMPLATE page;
          (answer, tr1) = fetch_html fetch Listing listing_url (trace st)
      in case answer of
           Inl e \<Rightarrow> (Raise e, st\<lparr>trace := tr1\<rparr>)
         | Inr listing_html \<Rightarrow>
             (case extract_site_links parser listing_html of
                Inl e \<Rightarrow> (Raise e, st\<lparr>trace := tr1\<rparr>)
              | Inr site_urls \<Rightarrow>
                  detail_loop parser fetch delay max_sites site_urls (st\<lparr>trace := tr1\<rparr>)))"

fun page_loop ::
  "html_parser \<Rightarrow> fetcher \<Rightarrow> real \<Rightarrow> int option \<Rightarrow> int list \<Rightarrow> crawl \<Rightarrow> flow \<times> crawl" where
  \<comment> \<open>\<open>for page in pages\<close>, and the \<open>return results\<close> after it\<close>
  "page_loop parser fetch delay max_sites [] st = (Return, st)"
| "page_loop parser fetch delay max_sites (page # pages) st =
     (let (fl, st1) = visit_page parser fetch delay max_sites page st
      in if fl = Continue then page_loop parser fetch delay max_sites pages st1
         else (fl, st1))"

definition scrape_awwwards ::
  "html_parser \<Rightarrow> fetcher \<Rightarrow> int list \<Rightarrow> real \<Rightarrow> int option \<Rightarrow> (exn + result_map) \<times> event list" where
  \<comment> \<open>the value returned or the exception raised, and the trace of the run\<close>
  "scrape_awwwards parser fetch pages delay max_sites =
     (let (fl, st) = page_loop parser fetch delay max_sites pages \<lparr>results = [], trace = []\<rparr>
      in case fl of
           Raise e \<Rightarrow> (Inl e, trace st)
         | _ \<Rightarrow> (Inr (results st), trace st))"

section \<open>The command line\<close>

text \<open>
  \<open>parse_args\<close> is \<open>argparse\<close>; \<open>main\<close> is modelled from the parsed arguments on. What
  the program writes is recorded as a list of outputs; the JSON text of the result is
  not rendered, the output holds the dictionary that is dumped. Opening the output file
  may fail: \<open>writable\<close> says for which paths \<open>open(path, "w")\<close> succeeds.
\<close>

record args =
  arg_start_page :: int
  arg_end_page :: "int option"
  arg_delay :: real
  arg_max_sites :: "int option"
  arg_output :: "string option"

datatype written = Stderr string | Stdout_json result_map | File_json string result_map

definition main ::
  "html_parser \<Rightarrow> fetcher \<Rightarrow> (string \<Rightarrow> bool) \<Rightarrow> args
     \<Rightarrow> (exn + int) \<times> written list \<times> event list" where
  "main parser fetch writable a =
     (let end_page = (case arg_end_page a of Some e \<Rightarrow> e | None \<Rightarrow> arg_start_page a)
      in if arg_start_page a < 1 \<or> end_page < arg_start_page a
         then (Inr 1, [Stderr ''Invalid page range provided.''], [])
         else
           let pages = [arg_start_page a..end_page];
               (r, tr) = scrape_awwwards parser fetch pages (arg_delay a) (arg_max_sites a)
           in case r of
                Inl e \<Rightarrow> (Inl e, [], tr)
              | Inr rs \<Rightarrow>
                  (case arg_output a of
                     None \<Rightarrow> (Inr 0, [Stdout_json rs], tr)
                   | Some path \<Rightarrow>
                       if path = [] then (Inr 0, [Stdout_json rs], tr)
                       else if writable path then (Inr 0, [File_json path rs], tr)
                       else (Inl OSError, [], tr)))"

definition exit_status :: "exn + int \<Rightarrow> int" where
  \<comment> \<open>\<open>raise SystemExit(main(sys.argv[1:]))\<close>: the status is what \<open>main\<close> returns; an
      exception that leaves \<open>main\<close> ends the interpreter with status 1\<close>
  "exit_status r = (case r of Inr code \<Rightarrow> code | Inl e \<Rightarrow> 1)"

section \<open>Vocabulary of the properties\<close>

text \<open>
  The definitions of this section are not part of the program; the properties below
  are stated with them.
\<close>

subsection \<open>Link extraction\<close>

text \<open>
  \<open>matching_hrefs\<close> are the \<open>href\<close> values, in document order, that contain the marker
  \<open>/sites/\<close>; \<open>truncate_query\<close> cuts a string at its first question mark;
  \<open>first_occurrences\<close> keeps of a list the elements at the positions where they occur
  for the first time.
\<close>

definition matching_hrefs :: "anchor list \<Rightarrow> string list" where
  "matching_hrefs soup =
     concat (map (\<lambda>a. case href a of
                         None \<Rightarrow> []
                       | Some h \<Rightarrow> if sublist ''/sites/'' h then [h] else []) soup)"

definition truncate_query :: "string \<Rightarrow> string" where
  "truncate_query h = takeWhile (\<lambda>c. c \<noteq> CHR ''?'') h"

definition first_occurrences :: "'a list \<Rightarrow> 'a list" where
  "first_occurrences xs =
     map (\<lambda>i. xs ! i) (filter (\<lambda>i. xs ! i \<notin> set (take i xs)) [0..<length xs])"

subsection \<open>Traces\<close>

text \<open>
  An answer is \<open>stored\<close> when the detail fetch led to an entry of the result map (the
  markup came, or \<open>RequestException\<close> was caught); \<open>entry_value\<close> is the value stored
  for it. \<open>detail_urls\<close> are the URLs of the detail fetches of a trace, in order;
  \<open>discovered\<close> are the links that a listing fetch of the trace brought;
  \<open>pause\<close> is what the \<open>if delay: time.sleep(delay)\<close> of a run with a delay that is
  not negative adds to the trace.
\<close>

definition stored :: "exn + string \<Rightarrow> bool" where
  "stored answer = (case answer of Inr markup \<Rightarrow> True | Inl e \<Rightarrow> e = RequestException)"

definition entry_value :: "html_parser \<Rightarrow> exn + string \<Rightarrow> string option" where
  "entry_value parser answer =
     (case answer of Inr markup \<Rightarrow> extract_visit_site parser markup | Inl e \<Rightarrow> None)"

fun detail_urls :: "event list \<Rightarrow> string list" where
  "detail_urls [] = []"
| "detail_urls (Fetch Detail url answer # es) = url # detail_urls es"
| "detail_urls (Fetch Listing url answer # es) = detail_urls es"
| "detail_urls (Sleep secs # es) = detail_urls es"

definition pause :: "real \<Rightarrow> event list" where
  "pause delay = (if delay \<noteq> 0 then [Sleep delay] else [])"

fun is_listing :: "event \<Rightarrow> bool" where
  "is_listing (Fetch Listing url answer) = True"
| "is_listing e = False"


fun discovered :: "html_parser \<Rightarrow> event \<Rightarrow> string set" where
  "discovered parser (Fetch Listing url (Inr markup)) =
     (case extract_site_links parser markup of Inr links \<Rightarrow> set links | Inl e \<Rightarrow> {})"
| "discovered parser e = {}"



text \<open>
  \<open>cap_end\<close>: the trace ends with the detail fetch of the last key of the map, followed
  by nothing but the pause. \<open>earlier_fetched\<close>: every link discovered by a fetch that a
  later listing fetch follows has had its detail fetch.
\<close>

definition cap_end :: "real \<Rightarrow> result_map \<Rightarrow> event list \<Rightarrow> bool" where
  "cap_end delay rs tr \<longleftrightarrow>
     (\<exists>before answer. tr = before @ Fetch Detail (fst (last rs)) answer # pause delay)"

definition earlier_fetched :: "html_parser \<Rightarrow> event list \<Rightarrow> bool" where
  "earlier_fetched parser tr \<longleftrightarrow>
     (\<forall>i j. i < j \<and> j < length tr \<and> is_listing (tr ! j)
        \<longrightarrow> discovered parser (tr ! i) \<subseteq> set (detail_urls tr))"

subsection \<open>Invariants of the loops\<close>

definition keys_ok :: "crawl \<Rightarrow> bool" where
  "keys_ok st \<longleftrightarrow>
     detail_urls (trace st) = map fst (results st) \<and> distinct (map fst (results st))"

definition all_fetched :: "html_parser \<Rightarrow> event list \<Rightarrow> bool" where
  "all_fetched parser tr \<longleftrightarrow> (\<forall>e \<in> set tr. discovered parser e \<subseteq> set (detail_urls tr))"




definition cut_short :: "int \<Rightarrow> flow \<times> crawl \<Rightarrow> flow \<times> crawl \<Rightarrow> bool" where
  "cut_short m capped uncapped \<longleftrightarrow>
     capped = uncapped
     \<or> (fst capped = Return \<and> m \<le> int (length (results (snd capped)))
        \<and> prefix (results (snd capped)) (results (snd uncapped))
        \<and> prefix (trace (snd capped)) (trace (snd uncapped)))"

subsection \<open>The command line\<close>

definition effective_end :: "args \<Rightarrow> int" where
  "effective_end a = (case arg_end_page a of Some e \<Rightarrow> e | None \<Rightarrow> arg_start_page a)"

definition can_write :: "(string \<Rightarrow> bool) \<Rightarrow> args \<Rightarrow> bool" where
  "can_write writable a =
     (case arg_output a of None \<Rightarrow> True | Some path \<Rightarrow> path = [] \<or> writable path)"

section \<open>An example site\<close>

text \<open>
  A small site on which the functions are evaluated: two listing pages with five
  detail pages between them (one linked from both listing pages, one that cannot be
  fetched), and some single documents. \<open>web_parser\<close> gives the anchors of the few
  markups of the example, \<open>web_fetch\<close> serves its pages and fails on every other URL.
\<close>

definition web_docs :: "(string \<times> anchor list) list" where
  "web_docs =
     [(''listing 1'',
        [\<lparr>href = Some ''/sites/alpha'', tag_string = Some ''Alpha''\<rparr>,
         \<lparr>href = Some ''/sites/beta?ref=home'', tag_string = Some ''Beta''\<rparr>,
         \<lparr>href = None, tag_string = Some ''top''\<rparr>,
         \<lparr>href = Some '''', tag_string = None\<rparr>,
         \<lparr>href = Some ''/sites/alpha'', tag_string = None\<rparr>,
         \<lparr>href = Some ''/about'', tag_string = Some ''About''\<rparr>]),
      (''listing 2'',
        [\<lparr>href = Some ''https://www.awwwards.com/sites/beta'', tag_string = Some ''Beta''\<rparr>,
         \<lparr>href = Some ''/sites/gamma'', tag_string = Some ''Gamma''\<rparr>,
         \<lparr>href = Some ''/sites/delta'', tag_string = Some ''Delta''\<rparr>,
         \<lparr>href = Some ''/sites/epsilon'', tag_string = Some ''Epsilon''\<rparr>]),
      (''listing 42'',
        [\<lparr>href = Some ''/sites/42?ref=home'', tag_string = Some ''Site 42''\<rparr>]),
      (''listing about'',
        [\<lparr>href = Some ''/about?from=/sites/42'', tag_string = Some ''About''\<rparr>]),
      (''listing none'',
        [\<lparr>href = Some ''/about'', tag_string = Some ''About''\<rparr>,
         \<lparr>href = None, tag_string = Some ''/sites/''\<rparr>]),
      (''detail alpha'',
        [\<lparr>href = Some ''/'', tag_string = Some ''Home''\<rparr>,
         \<lparr>href = Some ''https://alpha.example'', tag_string = Some ''  Visit Site  ''\<rparr>,
         \<lparr>href = Some ''https://other.example'', tag_string = Some ''visit site''\<rparr>]),
      (''detail beta'',
        [\<lparr>href = None, tag_string = Some ''VISIT SITE''\<rparr>]),
      (''detail delta'',
        [\<lparr>href = Some ''https://delta.example'', tag_string = Some ''Visit site''\<rparr>]),
      (''detail epsilon'',
        [\<lparr>href = Some ''https://epsilon.example'', tag_string = Some ''Visit the site''\<rparr>])]"

definition web_parser :: html_parser where
  "web_parser markup = (case map_of web_docs markup of Some soup \<Rightarrow> soup | None \<Rightarrow> [])"

definition web_pages :: "(string \<times> string) list" where
  "web_pages =
     [(''https://www.awwwards.com/websites/?page=1'', ''listing 1''),
      (''https://www.awwwards.com/websites/?page=2'', ''listing 2''),
      (''https://www.awwwards.com/sites/alpha'', ''detail alpha''),
      (''https://www.awwwards.com/sites/beta'', ''detail beta''),
      (''https://www.awwwards.com/sites/delta'', ''detail delta''),
      (''https://www.awwwards.com/sites/epsilon'', ''detail epsilon'')]"

definition web_fetch :: fetcher where
  "web_fetch tr url =
     (case map_of web_pages url of Some markup \<Rightarrow> Inr markup | None \<Rightarrow> Inl RequestException)"

definition all_writable :: "string \<Rightarrow> bool" where
  "all_writable path = True"

section \<open>Lemmas\<close>

subsection \<open>Link extraction\<close>

lemma first_occurrences_Nil: "first_occurrences [] = []"
  by (simp add: first_occurrences_def)

lemma first_occurrences_snoc:
  "first_occurrences (xs @ [x]) = first_occurrences xs @ (if x \<in> set xs then [] else [x])"
proof -
  have a: "filter (\<lambda>i. (xs @ [x]) ! i \<notin> set (take i (xs @ [x]))) [0..<length xs]
         = filter (\<lambda>i. xs ! i \<notin> set (take i xs)) [0..<length xs]"
    by (rule filter_cong) (auto simp: nth_append)
  have b: "map (\<lambda>i. (xs @ [x]) ! i) (filter (\<lambda>i. xs ! i \<notin> set (take i xs)) [0..<length xs])
         = map (\<lambda>i. xs ! i) (filter (\<lambda>i. xs ! i \<notin> set (take i xs)) [0..<length xs])"
    by (rule map_cong) (auto simp: nth_append)
  have c: "[0..<length (xs @ [x])] = [0..<length xs] @ [length xs]"
    by simp
  have d: "map (\<lambda>i. (xs @ [x]) ! i)
             (filter (\<lambda>i. (xs @ [x]) ! i \<notin> set (take i (xs @ [x]))) [length xs])
         = (if x \<in> set xs then [] else [x])"
    by simp
  have "first_occurrences (xs @ [x])
      = map (\<lambda>i. (xs @ [x]) ! i)
          (filter (\<lambda>i. (xs @ [x]) ! i \<notin> set (take i (xs @ [x]))) [0..<length xs])
        @ map (\<lambda>i. (xs @ [x]) ! i)
          (filter (\<lambda>i. (xs @ [x]) ! i \<notin> set (take i (xs @ [x]))) [length xs])"
    by (simp only: first_occurrences_def c filter_append map_append)
  also have "\<dots> = first_occurrences xs @ (if x \<in> set xs then [] else [x])"
    by (simp only: a b d first_occurrences_def)
  finally show ?thesis .
qed

lemma set_first_occurrences: "set (first_occurrences xs) = set xs"
  by (induction xs rule: rev_induct) (auto simp: first_occurrences_Nil first_occurrences_snoc)

lemma distinct_first_occurrences: "distinct (first_occurrences xs)"
  by (induction xs rule: rev_induct)
    (auto simp: first_occurrences_Nil first_occurrences_snoc set_first_occurrences)

lemma first_occurrences_map:
  "inj f \<Longrightarrow> first_occurrences (map f xs) = map f (first_occurrences xs)"
  by (induction xs rule: rev_induct)
    (auto simp: first_occurrences_Nil first_occurrences_snoc inj_image_mem_iff)

lemma unique_loop_append:
  "unique_loop (xs @ ys) seen acc = unique_loop ys (seen \<union> set xs) (unique_loop xs seen acc)"
  by (induction xs arbitrary: seen acc) (auto simp: insert_absorb)

lemma unique_loop_first_occurrences: "unique_loop links {} [] = first_occurrences links"
  by (induction links rule: rev_induct)
    (auto simp: first_occurrences_Nil first_occurrences_snoc unique_loop_append)

lemma py_split_nonempty: "py_split c s \<noteq> []"
  by (induction s) (auto split: list.splits)

lemma hd_py_split: "hd (py_split c s) = takeWhile (\<lambda>x. x \<noteq> c) s"
  using py_split_nonempty [of c] by (induction s) (auto split: list.splits)

lemma matching_hrefs_select: "matching_hrefs (select_sites soup) = matching_hrefs soup"
  by (induction soup) (auto simp: matching_hrefs_def select_sites_def split: option.splits)

lemma collect_links_Inr:
  "collect_links anchors links = Inr out \<Longrightarrow>
     map Inr out = map Inr links
       @ map (\<lambda>h. urljoin BASE_URL (truncate_query h)) (matching_hrefs anchors)"
proof (induction anchors arbitrary: links)
  case Nil
  then show ?case by (simp add: matching_hrefs_def)
next
  case (Cons a anchors)
  show ?case
  proof (cases "href a")
    case None
    with Cons show ?thesis by (simp add: matching_hrefs_def)
  next
    case (Some h)
    show ?thesis
    proof (cases "h = [] \<or> \<not> sublist ''/sites/'' h")
      case True
      with Cons Some show ?thesis by (auto simp: matching_hrefs_def)
    next
      case False
      with Cons.prems Some obtain absolute where
        u: "urljoin BASE_URL (hd (py_split CHR ''?'' h)) = Inr absolute"
        and r: "collect_links anchors (links @ [absolute]) = Inr out"
        by (auto split: sum.splits)
      from Cons.IH [OF r] u False Some show ?thesis
        by (simp add: matching_hrefs_def hd_py_split truncate_query_def)
    qed
  qed
qed

lemma collect_links_no_match:
  "matching_hrefs anchors = [] \<Longrightarrow> collect_links anchors links = Inr links"
  by (induction anchors arbitrary: links)
    (auto simp: matching_hrefs_def split: option.splits if_splits)

subsection \<open>The label of the button\<close>









subsection \<open>The loop bodies\<close>

lemma update_new: "k \<notin> set (map fst al) \<Longrightarrow> AList.update k v al = al @ [(k, v)]"
  by (induction al) auto

lemma trace_update: "st\<lparr>trace := tr\<rparr> = \<lparr>results = results st, trace = tr\<rparr>"
  by (cases st) simp

lemma visit_site_cases [consumes 1, case_names present raise_fetch raise_sleep go]:
  assumes run: "visit_site parser fetch delay max_sites u st = (fl, st1)"
  obtains
    (present) "u \<in> set (map fst (results st))" "fl = Continue" "st1 = st"
  | (raise_fetch) e where "u \<notin> set (map fst (results st))"
      "fetch (trace st) u = Inl e" "e \<noteq> RequestException" "fl = Raise e"
      "st1 = \<lparr>results = results st, trace = trace st @ [Fetch Detail u (Inl e)]\<rparr>"
  | (raise_sleep) "u \<notin> set (map fst (results st))" "stored (fetch (trace st) u)"
      "delay < 0" "fl = Raise ValueError"
      "st1 = \<lparr>results = results st @ [(u, entry_value parser (fetch (trace st) u))],
              trace = trace st @ [Fetch Detail u (fetch (trace st) u)]\<rparr>"
  | (go) "u \<notin> set (map fst (results st))" "stored (fetch (trace st) u)" "0 \<le> delay"
      "fl = (if cap_reached max_sites (results st @ [(u, entry_value parser (fetch (trace st) u))])
             then Return else Continue)"
      "st1 = \<lparr>results = results st @ [(u, entry_value parser (fetch (trace st) u))],
              trace = trace st @ Fetch Detail u (fetch (trace st) u) # pause delay\<rparr>"
proof (cases "u \<in> set (map fst (results st))")
  case True
  with run have "fl = Continue" "st1 = st"
    by (simp_all add: visit_site_def)
  with True show ?thesis by (rule present)
next
  case new: False
  let ?a = "fetch (trace st) u"
  show ?thesis
  proof (cases "stored ?a")
    case False
    then obtain e where e: "?a = Inl e" "e \<noteq> RequestException"
      by (auto simp: stored_def split: sum.splits)
    with run new have "fl = Raise e"
      "st1 = \<lparr>results = results st, trace = trace st @ [Fetch Detail u (Inl e)]\<rparr>"
      by (simp_all add: visit_site_def fetch_html_def store_detail_def trace_update)
    with new e show ?thesis by (rule raise_fetch)
  next
    case True
    then have sd: "store_detail parser u ?a (results st)
        = Inr (results st @ [(u, entry_value parser ?a)])"
      using new by (auto simp: stored_def store_detail_def entry_value_def update_new
          split: sum.splits)
    show ?thesis
    proof (cases "delay < 0")
      case neg: True
      with run new sd have "fl = Raise ValueError"
        "st1 = \<lparr>results = results st @ [(u, entry_value parser ?a)],
                trace = trace st @ [Fetch Detail u ?a]\<rparr>"
        by (simp_all add: visit_site_def fetch_html_def time_sleep_def)
      with new True neg show ?thesis by (rule raise_sleep)
    next
      case False
      then have pos: "0 \<le> delay" by simp
      from False have "(if delay \<noteq> 0 then time_sleep delay (trace st @ [Fetch Detail u ?a])
                         else Inr (trace st @ [Fetch Detail u ?a]))
          = Inr (trace st @ Fetch Detail u ?a # pause delay)"
        by (simp add: time_sleep_def pause_def)
      with run new sd have
        "fl = (if cap_reached max_sites (results st @ [(u, entry_value parser ?a)])
               then Return else Continue)"
        "st1 = \<lparr>results = results st @ [(u, entry_value parser ?a)],
                trace = trace st @ Fetch Detail u ?a # pause delay\<rparr>"
        by (auto simp: visit_site_def fetch_html_def split: if_splits)
      with new True pos show ?thesis by (rule go)
    qed
  qed
qed

lemma detail_loop_rule [consumes 2, case_names step]:
  assumes run: "detail_loop parser fetch delay max_sites urls st = (fl, st')"
    and init: "I st"
    and step: "\<And>u s fl1 s1. I s \<Longrightarrow> visit_site parser fetch delay max_sites u s = (fl1, s1)
                 \<Longrightarrow> (if fl1 = Continue then I s1 else Q fl1 s1)"
  shows "if fl = Continue then I st' else Q fl st'"
  using run init
proof (induction urls arbitrary: st)
  case Nil
  then show ?case by simp
next
  case (Cons u urls)
  obtain fl1 s1 where v: "visit_site parser fetch delay max_sites u st = (fl1, s1)"
    by (cases "visit_site parser fetch delay max_sites u st")
  from step [OF Cons.prems(2) v] Cons.prems(1) v Cons.IH [of s1] show ?case
    by (auto split: if_splits)
qed

lemma page_loop_rule [consumes 2, case_names step exit]:
  assumes run: "page_loop parser fetch delay max_sites pages st = (fl, st')"
    and init: "I st"
    and step: "\<And>page s fl1 s1. I s \<Longrightarrow> visit_page parser fetch delay max_sites page s = (fl1, s1)
                 \<Longrightarrow> (if fl1 = Continue then I s1 else Q fl1 s1)"
    and exit: "\<And>s. I s \<Longrightarrow> Q Return s"
  shows "Q fl st'"
  using run init
proof (induction pages arbitrary: st)
  case Nil
  with exit show ?case by simp
next
  case (Cons page pages)
  obtain fl1 s1 where v: "visit_page parser fetch delay max_sites page st = (fl1, s1)"
    by (cases "visit_page parser fetch delay max_sites page st")
  from step [OF Cons.prems(2) v] Cons.prems(1) v Cons.IH [of s1] show ?case
    by (auto split: if_splits)
qed

lemma visit_page_cases [consumes 1, case_names raise_fetch raise_links links]:
  assumes run: "visit_page parser fetch delay max_sites page st = (fl, st1)"
  obtains
    (raise_fetch) e where "fetch (trace st) (LISTING_TEMPLATE page) = Inl e" "fl = Raise e"
      "st1 = \<lparr>results = results st,
              trace = trace st @ [Fetch Listing (LISTING_TEMPLATE page) (Inl e)]\<rparr>"
  | (raise_links) markup e where "fetch (trace st) (LISTING_TEMPLATE page) = Inr markup"
      "extract_site_links parser markup = Inl e" "fl = Raise e"
      "st1 = \<lparr>results = results st,
              trace = trace st @ [Fetch Listing (LISTING_TEMPLATE page) (Inr markup)]\<rparr>"
  | (links) markup site_urls where "fetch (trace st) (LISTING_TEMPLATE page) = Inr markup"
      "extract_site_links parser markup = Inr site_urls"
      "detail_loop parser fetch delay max_sites site_urls
         \<lparr>results = results st,
          trace = trace st @ [Fetch Listing (LISTING_TEMPLATE page) (Inr markup)]\<rparr> = (fl, st1)"
  using run
  by (auto simp: visit_page_def fetch_html_def Let_def trace_update split: sum.splits)

subsection \<open>Invariants of the crawl\<close>

lemma detail_urls_append: "detail_urls (a @ b) = detail_urls a @ detail_urls b"
  by (induction a rule: detail_urls.induct) auto

lemma detail_urls_pause: "detail_urls (pause delay) = []"
  by (simp add: pause_def)

subsubsection \<open>growth\<close>

lemma visit_site_grows:
  assumes "visit_site parser fetch delay max_sites u st = (fl, st1)"
  shows "prefix (results st) (results st1) \<and> prefix (trace st) (trace st1)"
  using assms by (cases rule: visit_site_cases) auto

lemma detail_loop_grows:
  assumes "detail_loop parser fetch delay max_sites urls st = (fl, st')"
  shows "prefix (results st) (results st') \<and> prefix (trace st) (trace st')"
proof -
  let ?I = "\<lambda>s. prefix (results st) (results s) \<and> prefix (trace st) (trace s)"
  have "if fl = Continue then ?I st' else ?I st'"
    using assms
  proof (rule detail_loop_rule [where I = ?I and Q = "\<lambda>fl. ?I"])
    show "?I st" by simp
  next
    fix u s fl1 s1
    assume "?I s" "visit_site parser fetch delay max_sites u s = (fl1, s1)"
    with visit_site_grows [of parser fetch delay max_sites u s fl1 s1]
    show "if fl1 = Continue then ?I s1 else ?I s1"
      by (auto intro: prefix_order.trans)
  qed
  then show ?thesis by (simp split: if_splits)
qed

lemma visit_page_grows:
  assumes "visit_page parser fetch delay max_sites page st = (fl, st1)"
  shows "prefix (results st) (results st1) \<and> prefix (trace st) (trace st1)"
  using assms
proof (cases rule: visit_page_cases)
  case (links markup site_urls)
  from detail_loop_grows [OF links(3)] show ?thesis
    by (auto dest: append_prefixD)
qed auto

lemma page_loop_grows:
  assumes "page_loop parser fetch delay max_sites pages st = (fl, st')"
  shows "prefix (results st) (results st') \<and> prefix (trace st) (trace st')"
proof -
  let ?I = "\<lambda>s. prefix (results st) (results s) \<and> prefix (trace st) (trace s)"
  show ?thesis
    using assms
  proof (rule page_loop_rule [where I = ?I and Q = "\<lambda>fl. ?I"])
    show "?I st" by simp
  next
    fix page s fl1 s1
    assume "?I s" "visit_page parser fetch delay max_sites page s = (fl1, s1)"
    with visit_page_grows [of parser fetch delay max_sites page s fl1 s1]
    show "if fl1 = Continue then ?I s1 else ?I s1"
      by (auto intro: prefix_order.trans)
  qed
qed

subsubsection \<open>keys and detail fetches\<close>

lemma visit_site_keys:
  assumes "visit_site parser fetch delay max_sites u st = (fl, st1)" and "keys_ok st"
  shows "distinct (detail_urls (trace st1)) \<and> ((\<forall>e. fl \<noteq> Raise e) \<longrightarrow> keys_ok st1)"
  using assms
  by (cases rule: visit_site_cases)
    (auto simp: keys_ok_def detail_urls_append detail_urls_pause)

lemma detail_loop_keys:
  assumes "detail_loop parser fetch delay max_sites urls st = (fl, st')" and "keys_ok st"
  shows "distinct (detail_urls (trace st')) \<and> ((\<forall>e. fl \<noteq> Raise e) \<longrightarrow> keys_ok st')"
proof -
  let ?Q = "\<lambda>fl s. distinct (detail_urls (trace s)) \<and> ((\<forall>e. fl \<noteq> Raise e) \<longrightarrow> keys_ok s)"
  have "if fl = Continue then keys_ok st' else ?Q fl st'"
    using assms
  proof (rule detail_loop_rule [where I = keys_ok and Q = ?Q])
    fix u s fl1 s1
    assume "keys_ok s" "visit_site parser fetch delay max_sites u s = (fl1, s1)"
    with visit_site_keys [of parser fetch delay max_sites u s fl1 s1]
    show "if fl1 = Continue then keys_ok s1 else ?Q fl1 s1"
      by auto
  qed
  then show ?thesis by (auto simp: keys_ok_def split: if_splits)
qed

lemma visit_page_keys:
  assumes "visit_page parser fetch delay max_sites page st = (fl, st1)" and "keys_ok st"
  shows "distinct (detail_urls (trace st1)) \<and> ((\<forall>e. fl \<noteq> Raise e) \<longrightarrow> keys_ok st1)"
  using assms
proof (cases rule: visit_page_cases)
  case (links markup site_urls)
  from \<open>keys_ok st\<close> have "keys_ok \<lparr>results = results st,
      trace = trace st @ [Fetch Listing (LISTING_TEMPLATE page) (Inr markup)]\<rparr>"
    by (simp add: keys_ok_def detail_urls_append)
  from detail_loop_keys [OF links(3) this] show ?thesis .
qed (auto simp: keys_ok_def detail_urls_append)

lemma page_loop_keys:
  assumes "page_loop parser fetch delay max_sites pages st = (fl, st')" and "keys_ok st"
  shows "distinct (detail_urls (trace st')) \<and> ((\<forall>e. fl \<noteq> Raise e) \<longrightarrow> keys_ok st')"
proof -
  let ?Q = "\<lambda>fl s. distinct (detail_urls (trace s)) \<and> ((\<forall>e. fl \<noteq> Raise e) \<longrightarrow> keys_ok s)"
  show ?thesis
    using assms
  proof (rule page_loop_rule [where I = keys_ok and Q = ?Q])
    fix page s fl1 s1
    assume "keys_ok s" "visit_page parser fetch delay max_sites page s = (fl1, s1)"
    with visit_page_keys [of parser fetch delay max_sites page s fl1 s1]
    show "if fl1 = Continue then keys_ok s1 else ?Q fl1 s1"
      by auto
  next
    fix s assume "keys_ok s"
    then show "?Q Return s" by (auto simp: keys_ok_def)
  qed
qed

subsubsection \<open>cap\<close>

lemma visit_site_cap:
  assumes "visit_site parser fetch delay (Some m) u st = (fl, st1)"
    and "int (length (results st)) < m"
  shows "if fl = Continue then int (length (results st1)) < m
         else fl = Return \<longrightarrow> int (length (results st1)) = m
                \<and> cap_end delay (results st1) (trace st1)"
  using assms
  by (cases rule: visit_site_cases) (auto simp: cap_reached_def cap_end_def)

lemma detail_loop_cap:
  assumes "detail_loop parser fetch delay (Some m) urls st = (fl, st')"
    and "int (length (results st)) < m"
  shows "if fl = Continue then int (length (results st')) < m
         else fl = Return \<longrightarrow> int (length (results st')) = m
                \<and> cap_end delay (results st') (trace st')"
  using assms
proof (rule detail_loop_rule [where I = "\<lambda>s. int (length (results s)) < m"
      and Q = "\<lambda>fl s. fl = Return \<longrightarrow> int (length (results s)) = m
                \<and> cap_end delay (results s) (trace s)"])
  fix u s fl1 s1
  assume "int (length (results s)) < m" "visit_site parser fetch delay (Some m) u s = (fl1, s1)"
  then show "if fl1 = Continue then int (length (results s1)) < m
         else fl1 = Return \<longrightarrow> int (length (results s1)) = m
                \<and> cap_end delay (results s1) (trace s1)"
    by (rule visit_site_cap [rotated])
qed

lemma visit_page_cap:
  assumes "visit_page parser fetch delay (Some m) page st = (fl, st1)"
    and "int (length (results st)) < m"
  shows "if fl = Continue then int (length (results st1)) < m
         else fl = Return \<longrightarrow> int (length (results st1)) = m
                \<and> cap_end delay (results st1) (trace st1)"
  using assms
proof (cases rule: visit_page_cases)
  case (links markup site_urls)
  from detail_loop_cap [OF links(3)] assms(2) show ?thesis by simp
qed auto

lemma page_loop_cap:
  assumes "page_loop parser fetch delay (Some m) pages st = (fl, st')"
    and "int (length (results st)) < m"
  shows "fl = Return \<longrightarrow> int (length (results st')) < m
           \<or> (int (length (results st')) = m \<and> cap_end delay (results st') (trace st'))"
  using assms
proof (rule page_loop_rule [where I = "\<lambda>s. int (length (results s)) < m"])
  fix page s fl1 s1
  assume "int (length (results s)) < m" "visit_page parser fetch delay (Some m) page s = (fl1, s1)"
  from visit_page_cap [OF this(2,1)]
  show "if fl1 = Continue then int (length (results s1)) < m
        else fl1 = Return \<longrightarrow> int (length (results s1)) < m
           \<or> (int (length (results s1)) = m \<and> cap_end delay (results s1) (trace s1))"
    by (auto split: if_splits)
qed simp

lemma not_listing_discovered: "\<not> is_listing e \<Longrightarrow> discovered parser e = {}"
  by (cases "(parser, e)" rule: discovered.cases) auto

lemma not_listing_pause: "e \<in> set (pause delay) \<Longrightarrow> \<not> is_listing e"
  by (auto simp: pause_def split: if_splits)

subsubsection \<open>events of the inner loop\<close>

lemma visit_site_events:
  assumes "visit_site parser fetch delay max_sites u st = (fl, st1)"
  shows "\<exists>es. trace st1 = trace st @ es \<and> (\<forall>e \<in> set es. \<not> is_listing e)"
  using assms
proof (cases rule: visit_site_cases)
  case go
  then show ?thesis by (auto dest: not_listing_pause)
qed auto

lemma detail_loop_events:
  assumes "detail_loop parser fetch delay max_sites urls st = (fl, st')"
  shows "\<exists>es. trace st' = trace st @ es \<and> (\<forall>e \<in> set es. \<not> is_listing e)"
proof -
  let ?I = "\<lambda>s. \<exists>es. trace s = trace st @ es \<and> (\<forall>e \<in> set es. \<not> is_listing e)"
  have "if fl = Continue then ?I st' else ?I st'"
    using assms
  proof (rule detail_loop_rule [where I = ?I and Q = "\<lambda>fl. ?I"])
    show "?I st" by simp
  next
    fix u s fl1 s1
    assume "?I s" and v: "visit_site parser fetch delay max_sites u s = (fl1, s1)"
    then obtain es where es: "trace s = trace st @ es" "\<forall>e \<in> set es. \<not> is_listing e"
      by blast
    from visit_site_events [OF v] obtain es1 where
      es1: "trace s1 = trace s @ es1" "\<forall>e \<in> set es1. \<not> is_listing e"
      by blast
    from es es1 have "trace s1 = trace st @ (es @ es1) \<and> (\<forall>e \<in> set (es @ es1). \<not> is_listing e)"
      by auto
    then have "?I s1" by blast
    then show "if fl1 = Continue then ?I s1 else ?I s1" by simp
  qed
  then show ?thesis by (simp split: if_splits)
qed

subsubsection \<open>completeness of the inner loop\<close>

lemma visit_site_done:
  assumes "visit_site parser fetch delay max_sites u st = (Continue, st1)"
  shows "u \<in> set (map fst (results st1))"
  using assms by (cases rule: visit_site_cases) (auto split: if_splits)

lemma detail_loop_done:
  "detail_loop parser fetch delay max_sites urls st = (Continue, st')
     \<Longrightarrow> set urls \<subseteq> set (map fst (results st'))"
proof (induction urls arbitrary: st)
  case Nil
  then show ?case by simp
next
  case (Cons u urls)
  obtain fl1 s1 where v: "visit_site parser fetch delay max_sites u st = (fl1, s1)"
    by (cases "visit_site parser fetch delay max_sites u st")
  with Cons.prems have c: "fl1 = Continue"
    and r: "detail_loop parser fetch delay max_sites urls s1 = (Continue, st')"
    by (auto split: if_splits)
  from v c have "visit_site parser fetch delay max_sites u st = (Continue, s1)"
    by simp
  then have "u \<in> set (map fst (results s1))"
    by (rule visit_site_done)
  moreover from detail_loop_grows [OF r] have "set (results s1) \<subseteq> set (results st')"
    by (auto simp: prefix_def)
  ultimately have "u \<in> set (map fst (results st'))" by auto
  with Cons.IH [OF r] show ?case by simp
qed

subsubsection \<open>links of earlier pages\<close>

lemma all_fetched_earlier: "all_fetched parser tr \<Longrightarrow> earlier_fetched parser tr"
  by (auto simp: all_fetched_def earlier_fetched_def)

lemma earlier_fetched_intro:
  assumes a: "all_fetched parser tr0" and n: "\<forall>e \<in> set es. \<not> is_listing e"
  shows "earlier_fetched parser (tr0 @ ev # es)"
  unfolding earlier_fetched_def
proof (intro allI impI)
  fix i j
  assume h: "i < j \<and> j < length (tr0 @ ev # es) \<and> is_listing ((tr0 @ ev # es) ! j)"
  have "j \<le> length tr0"
  proof (rule ccontr)
    assume "\<not> j \<le> length tr0"
    with h have "(tr0 @ ev # es) ! j \<in> set es"
      by (auto simp: nth_append nth_Cons split: nat.splits)
    with n h show False by blast
  qed
  with h have "(tr0 @ ev # es) ! i \<in> set tr0"
    by (simp add: nth_append)
  with a have "discovered parser ((tr0 @ ev # es) ! i) \<subseteq> set (detail_urls tr0)"
    by (simp add: all_fetched_def)
  then show "discovered parser ((tr0 @ ev # es) ! i) \<subseteq> set (detail_urls (tr0 @ ev # es))"
    by (auto simp: detail_urls_append)
qed

lemma visit_page_earlier:
  assumes run: "visit_page parser fetch delay max_sites page st = (fl, st1)"
    and k: "keys_ok st" and a: "all_fetched parser (trace st)"
  shows "if fl = Continue then keys_ok st1 \<and> all_fetched parser (trace st1)
         else earlier_fetched parser (trace st1)"
  using run
proof (cases rule: visit_page_cases)
  case (raise_fetch e)
  with earlier_fetched_intro [OF a, of "[]"] show ?thesis by simp
next
  case (raise_links markup e)
  with earlier_fetched_intro [OF a, of "[]"] show ?thesis by simp
next
  case (links markup site_urls)
  let ?ev = "Fetch Listing (LISTING_TEMPLATE page) (Inr markup)"
  let ?s0 = "\<lparr>results = results st, trace = trace st @ [?ev]\<rparr>"
  from detail_loop_events [OF links(3)] obtain es where
    es: "trace st1 = trace st @ ?ev # es" "\<forall>e \<in> set es. \<not> is_listing e"
    by auto
  show ?thesis
  proof (cases "fl = Continue")
    case False
    with earlier_fetched_intro [OF a es(2), of ?ev] es(1) show ?thesis by simp
  next
    case True
    from k have "keys_ok ?s0"
      by (simp add: keys_ok_def detail_urls_append)
    with detail_loop_keys [OF links(3)] True have k1: "keys_ok st1" by simp
    from links(3) True have "detail_loop parser fetch delay max_sites site_urls ?s0
        = (Continue, st1)"
      by simp
    then have "set site_urls \<subseteq> set (map fst (results st1))"
      by (rule detail_loop_done)
    with k1 links(2) have new: "discovered parser ?ev \<subseteq> set (detail_urls (trace st1))"
      by (simp add: keys_ok_def)
    have "all_fetched parser (trace st1)"
      unfolding all_fetched_def
    proof
      fix e assume "e \<in> set (trace st1)"
      with es(1) consider "e \<in> set (trace st)" | "e = ?ev" | "e \<in> set es" by auto
      then show "discovered parser e \<subseteq> set (detail_urls (trace st1))"
      proof cases
        case 1
        with a have "discovered parser e \<subseteq> set (detail_urls (trace st))"
          by (simp add: all_fetched_def)
        with es(1) show ?thesis by (auto simp: detail_urls_append)
      next
        case 2
        with new show ?thesis by simp
      next
        case 3
        with es(2) show ?thesis by (simp add: not_listing_discovered)
      qed
    qed
    with k1 True show ?thesis by simp
  qed
qed

lemma page_loop_earlier:
  assumes "page_loop parser fetch delay max_sites pages st = (fl, st')"
    and "keys_ok st \<and> all_fetched parser (trace st)"
  shows "earlier_fetched parser (trace st')"
  using assms
proof (rule page_loop_rule [where I = "\<lambda>s. keys_ok s \<and> all_fetched parser (trace s)"])
  fix page s fl1 s1
  assume "keys_ok s \<and> all_fetched parser (trace s)"
    "visit_page parser fetch delay max_sites page s = (fl1, s1)"
  then show "if fl1 = Continue then keys_ok s1 \<and> all_fetched parser (trace s1)
         else earlier_fetched parser (trace s1)"
    using visit_page_earlier by blast
next
  fix s assume "keys_ok s \<and> all_fetched parser (trace s)"
  then show "earlier_fetched parser (trace s)" by (simp add: all_fetched_earlier)
qed

subsubsection \<open>failed detail fetches\<close>






subsubsection \<open>failed listing fetches\<close>



subsubsection \<open>sleeps\<close>












subsubsection \<open>the capped and the uncapped crawl\<close>

lemma visit_site_uncapped:
  assumes c: "visit_site parser fetch delay (Some m) u st = (flc, sc)"
    and n: "visit_site parser fetch delay None u st = (fln, sn)"
  shows "sc = sn \<and> (flc = fln \<or> (flc = Return \<and> fln = Continue \<and> m \<le> int (length (results sc))))"
  using c
proof (cases rule: visit_site_cases)
  case present
  with n show ?thesis by (simp add: visit_site_def)
next
  case (raise_fetch e)
  from n show ?thesis
    by (cases rule: visit_site_cases) (use raise_fetch in \<open>auto simp: stored_def\<close>)
next
  case raise_sleep
  from n show ?thesis
    by (cases rule: visit_site_cases) (use raise_sleep in \<open>auto simp: stored_def\<close>)
next
  case go
  from n show ?thesis
    by (cases rule: visit_site_cases)
      (use go in \<open>auto simp: stored_def cap_reached_def split: if_splits\<close>)
qed

lemma detail_loop_uncapped:
  assumes "detail_loop parser fetch delay (Some m) urls st = (flc, sc)"
    and "detail_loop parser fetch delay None urls st = (fln, sn)"
  shows "cut_short m (flc, sc) (fln, sn)"
  using assms
proof (induction urls arbitrary: st)
  case Nil
  then show ?case by (auto simp: cut_short_def)
next
  case (Cons u urls)
  obtain fl1 s1 where c: "visit_site parser fetch delay (Some m) u st = (fl1, s1)"
    by (cases "visit_site parser fetch delay (Some m) u st")
  obtain fl2 s2 where n: "visit_site parser fetch delay None u st = (fl2, s2)"
    by (cases "visit_site parser fetch delay None u st")
  from visit_site_uncapped [OF c n] have s: "s1 = s2"
    and f: "fl1 = fl2 \<or> (fl1 = Return \<and> fl2 = Continue \<and> m \<le> int (length (results s1)))"
    by auto
  show ?case
  proof (cases "fl1 = fl2")
    case True
    with Cons c n s show ?thesis
      by (auto simp: cut_short_def split: if_splits)
  next
    case False
    with f have r: "fl1 = Return" "fl2 = Continue" "m \<le> int (length (results s1))"
      by auto
    with Cons.prems c n s have "flc = Return" "sc = s1"
      and "detail_loop parser fetch delay None urls s1 = (fln, sn)"
      by auto
    with detail_loop_grows [of parser fetch delay None urls s1 fln sn] r(3)
    show ?thesis by (simp add: cut_short_def)
  qed
qed

lemma visit_page_uncapped:
  assumes c: "visit_page parser fetch delay (Some m) page st = (flc, sc)"
    and n: "visit_page parser fetch delay None page st = (fln, sn)"
  shows "cut_short m (flc, sc) (fln, sn)"
  using c
proof (cases rule: visit_page_cases)
  case (raise_fetch e)
  with n show ?thesis
    by (auto simp: cut_short_def visit_page_def fetch_html_def trace_update)
next
  case (raise_links markup e)
  with n show ?thesis
    by (auto simp: cut_short_def visit_page_def fetch_html_def trace_update)
next
  case (links markup site_urls)
  with n have "detail_loop parser fetch delay None site_urls
      \<lparr>results = results st,
       trace = trace st @ [Fetch Listing (LISTING_TEMPLATE page) (Inr markup)]\<rparr> = (fln, sn)"
    by (simp add: visit_page_def fetch_html_def trace_update)
  with links(3) show ?thesis by (rule detail_loop_uncapped)
qed

lemma page_loop_uncapped:
  assumes "page_loop parser fetch delay (Some m) pages st = (flc, sc)"
    and "page_loop parser fetch delay None pages st = (fln, sn)"
  shows "cut_short m (flc, sc) (fln, sn)"
  using assms
proof (induction pages arbitrary: st)
  case Nil
  then show ?case by (auto simp: cut_short_def)
next
  case (Cons page pages)
  obtain fl1 s1 where c: "visit_page parser fetch delay (Some m) page st = (fl1, s1)"
    by (cases "visit_page parser fetch delay (Some m) page st")
  obtain fl2 s2 where n: "visit_page parser fetch delay None page st = (fl2, s2)"
    by (cases "visit_page parser fetch delay None page st")
  from visit_page_uncapped [OF c n] have cs: "cut_short m (fl1, s1) (fl2, s2)" .
  show ?case
  proof (cases "(fl1, s1) = (fl2, s2)")
    case True
    with Cons c n show ?thesis
      by (auto simp: cut_short_def split: if_splits)
  next
    case False
    with cs have r: "fl1 = Return" "m \<le> int (length (results s1))"
      "prefix (results s1) (results s2)" "prefix (trace s1) (trace s2)"
      by (auto simp: cut_short_def)
    with Cons.prems c have e: "flc = Return" "sc = s1"
      by auto
    have "prefix (results s2) (results sn) \<and> prefix (trace s2) (trace sn)"
    proof (cases "fl2 = Continue")
      case True
      with Cons.prems(2) n have "page_loop parser fetch delay None pages s2 = (fln, sn)"
        by simp
      then show ?thesis by (rule page_loop_grows)
    next
      case False
      with Cons.prems(2) n show ?thesis by auto
    qed
    with r e show ?thesis
      by (auto simp: cut_short_def intro: prefix_order.trans)
  qed
qed

subsection \<open>Exceptions\<close>






lemma page_loop_flow:
  assumes "page_loop parser fetch delay max_sites pages st = (fl, st')"
  shows "fl \<noteq> Continue"
  using assms
  by (rule page_loop_rule [where I = "\<lambda>s. True" and Q = "\<lambda>fl s. fl \<noteq> Continue"]) simp_all

lemma scrape_awwwards_cases [consumes 1, case_names returned raised]:
  assumes "scrape_awwwards parser fetch pages delay max_sites = (r, tr)"
  obtains
    (returned) st' where
      "page_loop parser fetch delay max_sites pages \<lparr>results = [], trace = []\<rparr> = (Return, st')"
      "r = Inr (results st')" "tr = trace st'"
  | (raised) e st' where
      "page_loop parser fetch delay max_sites pages \<lparr>results = [], trace = []\<rparr> = (Raise e, st')"
      "r = Inl e" "tr = trace st'"
proof -
  obtain fl st' where
    p: "page_loop parser fetch delay max_sites pages \<lparr>results = [], trace = []\<rparr> = (fl, st')"
    by (cases "page_loop parser fetch delay max_sites pages \<lparr>results = [], trace = []\<rparr>")
  from page_loop_flow [OF p] have "fl \<noteq> Continue" .
  with assms p returned raised show ?thesis
    by (cases fl) (auto simp: scrape_awwwards_def)
qed

subsubsection \<open>request exceptions\<close>





lemma count_list_distinct: "distinct xs \<Longrightarrow> x \<in> set xs \<Longrightarrow> count_list xs x = 1"
  by (induction xs) auto

subsection \<open>The example site, evaluated\<close>

lemma web_uncapped:
  "scrape_awwwards web_parser web_fetch [1, 2] 0 None =
     (Inr [(''https://www.awwwards.com/sites/alpha'', Some ''https://alpha.example''),
           (''https://www.awwwards.com/sites/beta'', None),
           (''https://www.awwwards.com/sites/gamma'', None),
           (''https://www.awwwards.com/sites/delta'', Some ''https://delta.example''),
           (''https://www.awwwards.com/sites/epsilon'', None)],
      [Fetch Listing ''https://www.awwwards.com/websites/?page=1'' (Inr ''listing 1''),
       Fetch Detail ''https://www.awwwards.com/sites/alpha'' (Inr ''detail alpha''),
       Fetch Detail ''https://www.awwwards.com/sites/beta'' (Inr ''detail beta''),
       Fetch Listing ''https://www.awwwards.com/websites/?page=2'' (Inr ''listing 2''),
       Fetch Detail ''https://www.awwwards.com/sites/gamma'' (Inl RequestException),
       Fetch Detail ''https://www.awwwards.com/sites/delta'' (Inr ''detail delta''),
       Fetch Detail ''https://www.awwwards.com/sites/epsilon'' (Inr ''detail epsilon'')])"
  by code_simp

lemma web_capped:
  "scrape_awwwards web_parser web_fetch [1, 2] 0 (Some 2) =
     (Inr [(''https://www.awwwards.com/sites/alpha'', Some ''https://alpha.example''),
           (''https://www.awwwards.com/sites/beta'', None)],
      [Fetch Listing ''https://www.awwwards.com/websites/?page=1'' (Inr ''listing 1''),
       Fetch Detail ''https://www.awwwards.com/sites/alpha'' (Inr ''detail alpha''),
       Fetch Detail ''https://www.awwwards.com/sites/beta'' (Inr ''detail beta'')])"
  by code_simp



lemma web_main_3:
  "main web_parser web_fetch all_writable
     \<lparr>arg_start_page = 3, arg_end_page = None, arg_delay = 0, arg_max_sites = None,
      arg_output = None\<rparr>
   = (Inl RequestException, [],
      [Fetch Listing ''https://www.awwwards.com/websites/?page=3'' (Inl RequestException)])"
  by code_simp

lemma web_links_1:
  "extract_site_links web_parser ''listing 1''
     = Inr [''https://www.awwwards.com/sites/alpha'', ''https://www.awwwards.com/sites/beta'']"
  by code_simp

subsection \<open>Auxiliary facts\<close>

lemma init_keys_ok: "keys_ok \<lparr>results = [], trace = []\<rparr>"
  by (simp add: keys_ok_def)

lemma prefix_take: "prefix xs ys \<Longrightarrow> xs = take (length xs) ys"
  by (auto simp: prefix_def)

lemma init_all_fetched: "all_fetched parser []"
  by (simp add: all_fetched_def)

lemma discovered_listing: "u \<in> discovered parser e \<Longrightarrow> is_listing e"
  using not_listing_discovered [of e parser] by auto

lemma map_of_prefix:
  "prefix xs ys \<Longrightarrow> map_of xs k = Some v \<Longrightarrow> map_of ys k = Some v"
  by (auto simp: prefix_def map_add_Some_iff)

lemma web_page_2:
  "page_loop web_parser web_fetch 0 None [2]
     \<lparr>results = [(''https://www.awwwards.com/sites/beta'', Some ''kept'')], trace = []\<rparr>
   = (Return,
      \<lparr>results = [(''https://www.awwwards.com/sites/beta'', Some ''kept''),
                  (''https://www.awwwards.com/sites/gamma'', None),
                  (''https://www.awwwards.com/sites/delta'', Some ''https://delta.example''),
                  (''https://www.awwwards.com/sites/epsilon'', None)],
       trace = [Fetch Listing ''https://www.awwwards.com/websites/?page=2'' (Inr ''listing 2''),
                Fetch Detail ''https://www.awwwards.com/sites/gamma'' (Inl RequestException),
                Fetch Detail ''https://www.awwwards.com/sites/delta'' (Inr ''detail delta''),
                Fetch Detail ''https://www.awwwards.com/sites/epsilon''
                  (Inr ''detail epsilon'')]\<rparr>)"
  by code_simp

lemma extract_site_links_Inr:
  assumes "extract_site_links parser markup = Inr urls"
  shows "map Inr urls = first_occurrences
           (map (\<lambda>h. urljoin BASE_URL (truncate_query h)) (matching_hrefs (parser markup)))"
proof -
  from assms obtain links where
    c: "collect_links (select_sites (parser markup)) [] = Inr links"
    and u: "urls = first_occurrences links"
    by (auto simp: extract_site_links_def Let_def unique_loop_first_occurrences split: sum.splits)
  from collect_links_Inr [OF c] have "map Inr links
      = map (\<lambda>h. urljoin BASE_URL (truncate_query h)) (matching_hrefs (parser markup))"
    by (simp add: matching_hrefs_select)
  then have "first_occurrences (map (\<lambda>h. urljoin BASE_URL (truncate_query h))
      (matching_hrefs (parser markup))) = first_occurrences (map Inr links)"
    by simp
  also have "\<dots> = map Inr (first_occurrences links)"
    by (rule first_occurrences_map) simp
  finally show ?thesis using u by simp
qed

lemma matching_hrefs_set:
  "set (matching_hrefs soup) = {h. \<exists>a \<in> set soup. href a = Some h \<and> sublist ''/sites/'' h}"
  by (auto simp: matching_hrefs_def split: option.splits if_splits)

lemma select_sites_present:
  "select_sites (filter (\<lambda>a. href a \<noteq> None \<and> href a \<noteq> Some []) soup) = select_sites soup"
  by (induction soup) (auto simp: select_sites_def split: option.splits)

section \<open>The claims\<close>

text \<open>
  \<^bold>\<open>Claim C1\<close>, as amended. The claim as stated fails for a cap of 0 (and below): the
  guard \<open>max_sites and ...\<close> reads 0 as "no cap". For every cap \<open>m\<close> of at least 1: a
  crawl that returns, returns a map of at most \<open>m\<close> entries, and when the map has \<open>m\<close>
  entries the trace ends with the detail fetch of the last entry (and its pause), so
  that nothing is fetched once the cap is reached; and if the crawl without a cap
  returns a map of at least \<open>m\<close> entries, the capped crawl returns exactly its first
  \<open>m\<close> entries, on a trace that is a prefix of the uncapped one. With \<open>m = 2\<close> and five
  detail URLs discovered, the map has exactly 2 entries.
\<close>

theorem cap_respected:
  assumes m: "1 \<le> m"
  shows "(\<forall>rs tr. scrape_awwwards parser fetch pages delay (Some m) = (Inr rs, tr)
            \<longrightarrow> int (length rs) \<le> m \<and> (int (length rs) = m \<longrightarrow> cap_end delay rs tr))
       \<and> (\<forall>full trf. scrape_awwwards parser fetch pages delay None = (Inr full, trf)
               \<and> m \<le> int (length full)
            \<longrightarrow> (\<exists>tr. scrape_awwwards parser fetch pages delay (Some m)
                        = (Inr (take (nat m) full), tr) \<and> prefix tr trf))"
proof (intro conjI allI impI)
  fix rs tr
  assume run: "scrape_awwwards parser fetch pages delay (Some m) = (Inr rs, tr)"
  then have "int (length rs) < m \<or> (int (length rs) = m \<and> cap_end delay rs tr)"
  proof (cases rule: scrape_awwwards_cases)
    case (returned st')
    with page_loop_cap [OF returned(1)] m show ?thesis by simp
  qed simp
  then show "int (length rs) \<le> m" and "int (length rs) = m \<Longrightarrow> cap_end delay rs tr"
    by auto
next
  fix full trf
  assume "scrape_awwwards parser fetch pages delay None = (Inr full, trf)
            \<and> m \<le> int (length full)"
  then have run: "scrape_awwwards parser fetch pages delay None = (Inr full, trf)"
    and len: "m \<le> int (length full)" by auto
  from run obtain sn where
    n: "page_loop parser fetch delay None pages \<lparr>results = [], trace = []\<rparr> = (Return, sn)"
    and full: "full = results sn" and trf: "trf = trace sn"
    by (cases rule: scrape_awwwards_cases) auto
  obtain flc sc where
    c: "page_loop parser fetch delay (Some m) pages \<lparr>results = [], trace = []\<rparr> = (flc, sc)"
    by (cases "page_loop parser fetch delay (Some m) pages \<lparr>results = [], trace = []\<rparr>")
  from page_loop_uncapped [OF c n] have cs: "cut_short m (flc, sc) (Return, sn)" .
  then have ret: "flc = Return"
    and pre: "prefix (results sc) (results sn)" "prefix (trace sc) (trace sn)"
    and big: "m \<le> int (length (results sc))"
    using len full by (auto simp: cut_short_def)
  from page_loop_cap [OF c] m ret have "int (length (results sc)) \<le> m"
    by auto
  with big have "length (results sc) = nat m" by simp
  with prefix_take [OF pre(1)] full have "results sc = take (nat m) full"
    by simp
  with c ret pre(2) trf
  show "\<exists>tr. scrape_awwwards parser fetch pages delay (Some m) = (Inr (take (nat m) full), tr)
          \<and> prefix tr trf"
    by (simp add: scrape_awwwards_def)
qed

theorem cap_respected_witness:
  "(1::int) \<le> 2
   \<and> fst (scrape_awwwards web_parser web_fetch [1, 2] 0 None)
       = Inr [(''https://www.awwwards.com/sites/alpha'', Some ''https://alpha.example''),
              (''https://www.awwwards.com/sites/beta'', None),
              (''https://www.awwwards.com/sites/gamma'', None),
              (''https://www.awwwards.com/sites/delta'', Some ''https://delta.example''),
              (''https://www.awwwards.com/sites/epsilon'', None)]
   \<and> fst (scrape_awwwards web_parser web_fetch [1, 2] 0 (Some 2))
       = Inr [(''https://www.awwwards.com/sites/alpha'', Some ''https://alpha.example''),
              (''https://www.awwwards.com/sites/beta'', None)]
   \<and> cap_end 0
        [(''https://www.awwwards.com/sites/alpha'', Some ''https://alpha.example''),
         (''https://www.awwwards.com/sites/beta'', None)]
        (snd (scrape_awwwards web_parser web_fetch [1, 2] 0 (Some 2)))"
  using cap_respected [of 2 web_parser web_fetch "[1, 2]" 0]
  by (simp add: web_uncapped web_capped)

theorem cap_zero_counterexample:
  "fst (scrape_awwwards web_parser web_fetch [1] 0 (Some 0))
     = Inr [(''https://www.awwwards.com/sites/alpha'', Some ''https://alpha.example''),
            (''https://www.awwwards.com/sites/beta'', None)]
   \<and> \<not> int (length [(''https://www.awwwards.com/sites/alpha'', Some ''https://alpha.example''),
                     (''https://www.awwwards.com/sites/beta'', None :: string option)]) \<le> 0"
  by code_simp



text \<open>
  \<^bold>\<open>Claim C3.\<close> In every run no detail URL is fetched twice; the keys of a returned map
  are, in order, the URLs of the detail fetches, so that every key has one entry and one
  fetch; and a URL that two listing fetches of the run discovered was fetched exactly
  once and has exactly one entry in the returned map.
\<close>

theorem detail_fetched_once:
  assumes run: "scrape_awwwards parser fetch pages delay max_sites = (r, tr)"
  shows "distinct (detail_urls tr)
       \<and> (\<forall>rs. r = Inr rs \<longrightarrow> map fst rs = detail_urls tr)
       \<and> (\<forall>i j u. i < j \<and> j < length tr
             \<and> u \<in> discovered parser (tr ! i) \<and> u \<in> discovered parser (tr ! j)
           \<longrightarrow> count_list (detail_urls tr) u = 1
               \<and> (\<forall>rs. r = Inr rs \<longrightarrow> count_list (map fst rs) u = 1))"
proof -
  from run obtain fl st' where
    p: "page_loop parser fetch delay max_sites pages \<lparr>results = [], trace = []\<rparr> = (fl, st')"
    and tr: "tr = trace st'"
    and r: "r = (case fl of Raise e \<Rightarrow> Inl e | _ \<Rightarrow> Inr (results st'))"
    by (cases rule: scrape_awwwards_cases) auto
  from page_loop_keys [OF p init_keys_ok] tr have d: "distinct (detail_urls tr)"
    and k: "(\<forall>e. fl \<noteq> Raise e) \<longrightarrow> keys_ok st'"
    by simp_all
  have m: "map fst rs = detail_urls tr" if "r = Inr rs" for rs
  proof -
    from that r have "rs = results st'" "\<forall>e. fl \<noteq> Raise e"
      by (auto split: flow.splits)
    with k tr show ?thesis by (simp add: keys_ok_def)
  qed
  have e: "earlier_fetched parser tr"
    using page_loop_earlier [OF p] init_keys_ok init_all_fetched tr by simp
  have c: "count_list (detail_urls tr) u = 1"
    if "i < j \<and> j < length tr \<and> u \<in> discovered parser (tr ! i) \<and> u \<in> discovered parser (tr ! j)"
    for i j u
  proof -
    from that have "is_listing (tr ! j)" by (auto dest: discovered_listing)
    with e that have "discovered parser (tr ! i) \<subseteq> set (detail_urls tr)"
      unfolding earlier_fetched_def by blast
    with that have "u \<in> set (detail_urls tr)" by auto
    with d show ?thesis by (rule count_list_distinct)
  qed
  show ?thesis
  proof (intro conjI allI impI)
    show "distinct (detail_urls tr)" by (rule d)
  next
    fix rs assume "r = Inr rs"
    then show "map fst rs = detail_urls tr" by (rule m)
  next
    fix i j u
    assume h: "i < j \<and> j < length tr
        \<and> u \<in> discovered parser (tr ! i) \<and> u \<in> discovered parser (tr ! j)"
    then show "count_list (detail_urls tr) u = 1" by (rule c)
    fix rs assume "r = Inr rs"
    with m [of rs] c [OF h] show "count_list (map fst rs) u = 1" by simp
  qed
qed

theorem detail_fetched_once_witness:
  "(3::nat) < length (snd (scrape_awwwards web_parser web_fetch [1, 2] 0 None))
   \<and> ''https://www.awwwards.com/sites/beta''
       \<in> discovered web_parser (snd (scrape_awwwards web_parser web_fetch [1, 2] 0 None) ! 0)
   \<and> ''https://www.awwwards.com/sites/beta''
       \<in> discovered web_parser (snd (scrape_awwwards web_parser web_fetch [1, 2] 0 None) ! 3)
   \<and> count_list (detail_urls (snd (scrape_awwwards web_parser web_fetch [1, 2] 0 None)))
       ''https://www.awwwards.com/sites/beta'' = 1
   \<and> count_list (map fst (projr (fst (scrape_awwwards web_parser web_fetch [1, 2] 0 None))))
       ''https://www.awwwards.com/sites/beta'' = 1
   \<and> distinct (detail_urls (snd (scrape_awwwards web_parser web_fetch [1, 2] 0 None)))"
proof -
  note t = detail_fetched_once [OF web_uncapped]
  have d0: "''https://www.awwwards.com/sites/beta''
       \<in> discovered web_parser (snd (scrape_awwwards web_parser web_fetch [1, 2] 0 None) ! 0)"
    unfolding web_uncapped by code_simp
  have d3: "''https://www.awwwards.com/sites/beta''
       \<in> discovered web_parser (snd (scrape_awwwards web_parser web_fetch [1, 2] 0 None) ! 3)"
    unfolding web_uncapped by code_simp
  have c: "count_list (detail_urls (snd (scrape_awwwards web_parser web_fetch [1, 2] 0 None)))
       ''https://www.awwwards.com/sites/beta'' = 1
    \<and> count_list (map fst (projr (fst (scrape_awwwards web_parser web_fetch [1, 2] 0 None))))
       ''https://www.awwwards.com/sites/beta'' = 1"
    using t [THEN conjunct2, THEN conjunct2, rule_format,
        of 0 3 "''https://www.awwwards.com/sites/beta''"] d0 d3
    by (simp add: web_uncapped)
  have d: "distinct (detail_urls (snd (scrape_awwwards web_parser web_fetch [1, 2] 0 None)))"
    using t [THEN conjunct1] by (simp add: web_uncapped)
  have n: "(3::nat) < length (snd (scrape_awwwards web_parser web_fetch [1, 2] 0 None))"
    by (simp add: web_uncapped)
  from n d0 d3 c d show ?thesis by blast
qed

text \<open>
  \<^bold>\<open>Claim C4\<close>, as amended. The marker is looked for in the \<open>href\<close> attribute as it is
  written, query string included, not in the path of the resolved URL: every URL that
  \<open>extract_site_links\<close> returns is the resolution of the \<open>href\<close>, cut at its first
  question mark, of an anchor whose \<open>href\<close> contains \<open>/sites/\<close> somewhere. The
  returned URL itself need not contain the marker: \<open>/about?from=/sites/42\<close> is
  selected and yields \<open>https://www.awwwards.com/about\<close>.
\<close>

theorem links_from_marked_hrefs:
  assumes "extract_site_links parser markup = Inr urls"
  shows "\<forall>u \<in> set urls. \<exists>a \<in> set (parser markup). \<exists>h.
           href a = Some h \<and> sublist ''/sites/'' h
           \<and> urljoin BASE_URL (truncate_query h) = Inr u"
proof
  fix u assume "u \<in> set urls"
  then have "Inr u \<in> set (map Inr urls)" by simp
  also have "set (map Inr urls) = set (map (\<lambda>h. urljoin BASE_URL (truncate_query h))
      (matching_hrefs (parser markup)))"
    by (simp only: extract_site_links_Inr [OF assms] set_first_occurrences)
  finally obtain h where "h \<in> set (matching_hrefs (parser markup))"
    and "urljoin BASE_URL (truncate_query h) = Inr u"
    by auto
  then show "\<exists>a \<in> set (parser markup). \<exists>h.
           href a = Some h \<and> sublist ''/sites/'' h
           \<and> urljoin BASE_URL (truncate_query h) = Inr u"
    by (auto simp: matching_hrefs_set)
qed

theorem links_from_marked_hrefs_witness:
  "extract_site_links web_parser ''listing 42'' = Inr [''https://www.awwwards.com/sites/42'']
   \<and> (\<exists>a \<in> set (web_parser ''listing 42''). \<exists>h.
         href a = Some h \<and> sublist ''/sites/'' h
         \<and> urljoin BASE_URL (truncate_query h) = Inr ''https://www.awwwards.com/sites/42'')"
proof -
  have e: "extract_site_links web_parser ''listing 42''
      = Inr [''https://www.awwwards.com/sites/42'']"
    by code_simp
  from links_from_marked_hrefs [OF e] e show ?thesis by simp
qed

theorem marker_in_query_counterexample:
  "web_parser ''listing about''
     = [\<lparr>href = Some ''/about?from=/sites/42'', tag_string = Some ''About''\<rparr>]
   \<and> extract_site_links web_parser ''listing about'' = Inr [''https://www.awwwards.com/about'']
   \<and> \<not> sublist ''/sites/'' ''https://www.awwwards.com/about''"
  by code_simp



text \<open>
  \<^bold>\<open>Claim C6.\<close> The URLs that \<open>extract_site_links\<close> returns are exactly the results of
  resolving, against the base URL, the matching \<open>href\<close> values cut at their first
  question mark, whether relative or absolute: \<open>/sites/42?ref=home\<close> and
  \<open>https://www.awwwards.com/sites/42?ref=home\<close> both yield
  \<open>https://www.awwwards.com/sites/42\<close>.
\<close>

theorem extract_site_links_resolves:
  "(extract_site_links parser markup = Inr urls
      \<longrightarrow> Inr ` set urls
          = (\<lambda>h. urljoin BASE_URL (truncate_query h)) ` set (matching_hrefs (parser markup)))
   \<and> (parser markup = [a] \<and> href a = Some ''/sites/42?ref=home''
      \<longrightarrow> extract_site_links parser markup = Inr [''https://www.awwwards.com/sites/42''])
   \<and> (parser markup = [a] \<and> href a = Some ''https://www.awwwards.com/sites/42?ref=home''
      \<longrightarrow> extract_site_links parser markup = Inr [''https://www.awwwards.com/sites/42''])"
proof (intro conjI impI)
  assume e: "extract_site_links parser markup = Inr urls"
  have "Inr ` set urls = set (map Inr urls)" by simp
  also have "\<dots> = set (map (\<lambda>h. urljoin BASE_URL (truncate_query h))
      (matching_hrefs (parser markup)))"
    by (simp only: extract_site_links_Inr [OF e] set_first_occurrences)
  finally show "Inr ` set urls
      = (\<lambda>h. urljoin BASE_URL (truncate_query h)) ` set (matching_hrefs (parser markup))"
    by simp
next
  have m: "sublist ''/sites/'' ''/sites/42?ref=home''" by code_simp
  have s: "hd (py_split CHR ''?'' ''/sites/42?ref=home'') = ''/sites/42''" by code_simp
  have j: "urljoin BASE_URL ''/sites/42'' = Inr ''https://www.awwwards.com/sites/42''"
    by code_simp
  assume "parser markup = [a] \<and> href a = Some ''/sites/42?ref=home''"
  then show "extract_site_links parser markup = Inr [''https://www.awwwards.com/sites/42'']"
    by (simp add: extract_site_links_def select_sites_def m s j)
next
  have m: "sublist ''/sites/'' ''https://www.awwwards.com/sites/42?ref=home''" by code_simp
  have s: "hd (py_split CHR ''?'' ''https://www.awwwards.com/sites/42?ref=home'')
      = ''https://www.awwwards.com/sites/42''" by code_simp
  have j: "urljoin BASE_URL ''https://www.awwwards.com/sites/42''
      = Inr ''https://www.awwwards.com/sites/42''"
    by code_simp
  assume "parser markup = [a] \<and> href a = Some ''https://www.awwwards.com/sites/42?ref=home''"
  then show "extract_site_links parser markup = Inr [''https://www.awwwards.com/sites/42'']"
    by (simp add: extract_site_links_def select_sites_def m s j)
qed

theorem extract_site_links_resolves_witness:
  "web_parser ''listing 42''
     = [\<lparr>href = Some ''/sites/42?ref=home'', tag_string = Some ''Site 42''\<rparr>]
   \<and> extract_site_links web_parser ''listing 42'' = Inr [''https://www.awwwards.com/sites/42'']
   \<and> Inr ` set [''https://www.awwwards.com/sites/42'']
       = (\<lambda>h. urljoin BASE_URL (truncate_query h)) ` set (matching_hrefs (web_parser ''listing 42''))"
proof -
  note t = extract_site_links_resolves [where parser = web_parser and markup = "''listing 42''"
      and a = "\<lparr>href = Some ''/sites/42?ref=home'', tag_string = Some ''Site 42''\<rparr>"]
  have p: "web_parser ''listing 42''
     = [\<lparr>href = Some ''/sites/42?ref=home'', tag_string = Some ''Site 42''\<rparr>]"
    by code_simp
  have e: "extract_site_links web_parser ''listing 42'' = Inr [''https://www.awwwards.com/sites/42'']"
    by (rule t [THEN conjunct2, THEN conjunct1, rule_format]) (simp add: p)
  from t [THEN conjunct1, rule_format, OF e] p e show ?thesis by simp
qed

text \<open>
  \<^bold>\<open>Claim C7.\<close> The list that \<open>extract_site_links\<close> returns has no duplicates and is the
  list of the resolved matching links at their first occurrences, in their order; it is
  the empty list, not a failure, when no anchor matches; and the anchors with a missing
  or an empty \<open>href\<close> make no difference to the result.
\<close>

theorem extract_site_links_unique:
  "(extract_site_links parser markup = Inr urls
      \<longrightarrow> distinct urls
          \<and> map Inr urls = first_occurrences
              (map (\<lambda>h. urljoin BASE_URL (truncate_query h)) (matching_hrefs (parser markup))))
   \<and> (matching_hrefs (parser markup) = [] \<longrightarrow> extract_site_links parser markup = Inr [])
   \<and> extract_site_links (\<lambda>m. filter (\<lambda>a. href a \<noteq> None \<and> href a \<noteq> Some []) (parser m)) markup
       = extract_site_links parser markup"
proof (intro conjI impI)
  assume e: "extract_site_links parser markup = Inr urls"
  show m: "map Inr urls = first_occurrences
      (map (\<lambda>h. urljoin BASE_URL (truncate_query h)) (matching_hrefs (parser markup)))"
    using e by (rule extract_site_links_Inr)
  have "distinct (map Inr urls :: (exn + string) list)"
    unfolding m by (rule distinct_first_occurrences)
  then show "distinct urls" by (simp add: distinct_map)
next
  assume "matching_hrefs (parser markup) = []"
  then have "collect_links (select_sites (parser markup)) [] = Inr []"
    by (simp add: collect_links_no_match matching_hrefs_select)
  then show "extract_site_links parser markup = Inr []"
    by (simp add: extract_site_links_def)
next
  show "extract_site_links (\<lambda>m. filter (\<lambda>a. href a \<noteq> None \<and> href a \<noteq> Some []) (parser m)) markup
       = extract_site_links parser markup"
    by (simp only: extract_site_links_def Let_def select_sites_present)
qed

theorem extract_site_links_unique_witness:
  "matching_hrefs (web_parser ''listing 1'')
     = [''/sites/alpha'', ''/sites/beta?ref=home'', ''/sites/alpha'']
   \<and> extract_site_links web_parser ''listing 1''
     = Inr [''https://www.awwwards.com/sites/alpha'', ''https://www.awwwards.com/sites/beta'']
   \<and> distinct [''https://www.awwwards.com/sites/alpha'', ''https://www.awwwards.com/sites/beta'']
   \<and> matching_hrefs (web_parser ''listing none'') = []
   \<and> extract_site_links web_parser ''listing none'' = Inr []"
proof -
  have m: "matching_hrefs (web_parser ''listing 1'')
     = [''/sites/alpha'', ''/sites/beta?ref=home'', ''/sites/alpha'']"
    and n: "matching_hrefs (web_parser ''listing none'') = []"
    by code_simp+
  have d: "distinct [''https://www.awwwards.com/sites/alpha'', ''https://www.awwwards.com/sites/beta'']"
    using extract_site_links_unique [of web_parser "''listing 1''", THEN conjunct1, rule_format,
        OF web_links_1, THEN conjunct1] .
  have e: "extract_site_links web_parser ''listing none'' = Inr []"
    using extract_site_links_unique [of web_parser "''listing none''", THEN conjunct2,
        THEN conjunct1, rule_format, OF n] .
  from m web_links_1 d n e show ?thesis by blast
qed



text \<open>
  \<^bold>\<open>Claim C9\<close>, as amended. When the start page is below 1 or the effective end page is
  below the start page, \<open>main\<close> returns 1 with the error message on standard error as
  its only output and an empty trace (no fetch). For a valid page range the exit status
  is 0 exactly when the crawl returns a map and the output can be written; the claim as
  stated fails there, since an exception of the crawl (a failed listing fetch, for one)
  leaves \<open>main\<close> and ends the program with status 1.
\<close>

theorem main_page_range:
  "(arg_start_page a < 1 \<or> effective_end a < arg_start_page a
      \<longrightarrow> main parser fetch writable a
            = (Inr 1, [Stderr ''Invalid page range provided.''], []))
   \<and> (1 \<le> arg_start_page a \<and> arg_start_page a \<le> effective_end a
      \<longrightarrow> (exit_status (fst (main parser fetch writable a)) = 0
             \<longleftrightarrow> (\<exists>rs. fst (scrape_awwwards parser fetch [arg_start_page a..effective_end a]
                               (arg_delay a) (arg_max_sites a)) = Inr rs)
                 \<and> can_write writable a)
          \<and> (\<forall>e tr. scrape_awwwards parser fetch [arg_start_page a..effective_end a]
                        (arg_delay a) (arg_max_sites a) = (Inl e, tr)
                 \<longrightarrow> main parser fetch writable a = (Inl e, [], tr)
                     \<and> exit_status (Inl e) = 1))"
proof (intro conjI impI allI)
  assume "arg_start_page a < 1 \<or> effective_end a < arg_start_page a"
  then show "main parser fetch writable a = (Inr 1, [Stderr ''Invalid page range provided.''], [])"
    by (auto simp: main_def effective_end_def)
next
  assume v: "1 \<le> arg_start_page a \<and> arg_start_page a \<le> effective_end a"
  obtain r tr where s: "scrape_awwwards parser fetch [arg_start_page a..effective_end a]
      (arg_delay a) (arg_max_sites a) = (r, tr)"
    by (cases "scrape_awwwards parser fetch [arg_start_page a..effective_end a]
      (arg_delay a) (arg_max_sites a)")
  from v have m: "main parser fetch writable a =
      (case r of
         Inl e \<Rightarrow> (Inl e, [], tr)
       | Inr rs \<Rightarrow>
           (case arg_output a of
              None \<Rightarrow> (Inr 0, [Stdout_json rs], tr)
            | Some path \<Rightarrow>
                if path = [] then (Inr 0, [Stdout_json rs], tr)
                else if writable path then (Inr 0, [File_json path rs], tr)
                else (Inl OSError, [], tr)))"
    using s by (simp add: main_def effective_end_def Let_def)
  show "exit_status (fst (main parser fetch writable a)) = 0
         \<longleftrightarrow> (\<exists>rs. fst (scrape_awwwards parser fetch [arg_start_page a..effective_end a]
                          (arg_delay a) (arg_max_sites a)) = Inr rs)
             \<and> can_write writable a"
    unfolding m s
    by (cases r) (auto simp: exit_status_def can_write_def split: option.splits)
  fix e tr'
  assume "scrape_awwwards parser fetch [arg_start_page a..effective_end a]
      (arg_delay a) (arg_max_sites a) = (Inl e, tr')"
  with s have "r = Inl e" "tr = tr'" by simp_all
  with m show "main parser fetch writable a = (Inl e, [], tr')"
    and "exit_status (Inl e) = 1"
    by (simp_all add: exit_status_def)
qed

theorem main_page_range_witness:
  "effective_end \<lparr>arg_start_page = 0, arg_end_page = Some 2, arg_delay = 0, arg_max_sites = None,
      arg_output = None\<rparr> = 2
   \<and> main web_parser web_fetch all_writable
       \<lparr>arg_start_page = 0, arg_end_page = Some 2, arg_delay = 0, arg_max_sites = None,
        arg_output = None\<rparr>
     = (Inr 1, [Stderr ''Invalid page range provided.''], [])
   \<and> effective_end \<lparr>arg_start_page = 1, arg_end_page = Some 2, arg_delay = 0,
        arg_max_sites = None, arg_output = Some ''out.json''\<rparr> = 2
   \<and> exit_status (fst (main web_parser web_fetch all_writable
       \<lparr>arg_start_page = 1, arg_end_page = Some 2, arg_delay = 0, arg_max_sites = None,
        arg_output = Some ''out.json''\<rparr>)) = 0"
proof -
  let ?bad = "\<lparr>arg_start_page = 0, arg_end_page = Some 2, arg_delay = 0, arg_max_sites = None,
      arg_output = None\<rparr>"
  let ?good = "\<lparr>arg_start_page = 1, arg_end_page = Some 2, arg_delay = 0,
      arg_max_sites = None, arg_output = Some ''out.json''\<rparr>"
  have b: "effective_end ?bad = 2" and g: "effective_end ?good = 2"
    by (simp_all add: effective_end_def)
  have "main web_parser web_fetch all_writable ?bad
      = (Inr 1, [Stderr ''Invalid page range provided.''], [])"
    by (rule main_page_range [THEN conjunct1, rule_format]) simp
  moreover have u: "[1..2] = [1, 2::int]"
    by (simp add: upto.simps)
  have "exit_status (fst (main web_parser web_fetch all_writable ?good)) = 0"
    using main_page_range [THEN conjunct2, rule_format, of ?good web_parser web_fetch all_writable,
        THEN conjunct1]
    by (simp add: g u web_uncapped can_write_def all_writable_def)
  ultimately show ?thesis using b g by simp
qed

theorem main_failed_listing_counterexample:
  "1 \<le> arg_start_page \<lparr>arg_start_page = 3, arg_end_page = None, arg_delay = 0,
          arg_max_sites = None, arg_output = None\<rparr>
   \<and> exit_status (fst (main web_parser web_fetch all_writable
        \<lparr>arg_start_page = 3, arg_end_page = None, arg_delay = 0, arg_max_sites = None,
         arg_output = None\<rparr>)) = 1"
  by (simp add: web_main_3 exit_status_def)

text \<open>
  \<^bold>\<open>Claim C10.\<close> On no pages \<open>scrape_awwwards\<close> returns the empty map on the empty
  trace (no fetch at all). From any state of the crawl on, through the rest of a page and
  through the rest of the pages, the result map only grows at its end: the map before is
  a prefix of the map after, so no entry is overwritten or deleted.
\<close>

theorem results_only_grow:
  "scrape_awwwards parser fetch [] delay max_sites = (Inr [], [])
   \<and> (detail_loop parser fetch delay max_sites urls st = (fl, st1)
        \<longrightarrow> prefix (results st) (results st1)
            \<and> (\<forall>k v. map_of (results st) k = Some v \<longrightarrow> map_of (results st1) k = Some v))
   \<and> (page_loop parser fetch delay max_sites pages st = (fl, st1)
        \<longrightarrow> prefix (results st) (results st1)
            \<and> (\<forall>k v. map_of (results st) k = Some v \<longrightarrow> map_of (results st1) k = Some v))"
proof (intro conjI impI allI)
  show "scrape_awwwards parser fetch [] delay max_sites = (Inr [], [])"
    by (simp add: scrape_awwwards_def)
next
  assume "detail_loop parser fetch delay max_sites urls st = (fl, st1)"
  then show p: "prefix (results st) (results st1)"
    by (simp add: detail_loop_grows)
  fix k v assume "map_of (results st) k = Some v"
  with p show "map_of (results st1) k = Some v" by (rule map_of_prefix)
next
  assume "page_loop parser fetch delay max_sites pages st = (fl, st1)"
  then show p: "prefix (results st) (results st1)"
    by (simp add: page_loop_grows)
  fix k v assume "map_of (results st) k = Some v"
  with p show "map_of (results st1) k = Some v" by (rule map_of_prefix)
qed

theorem results_only_grow_witness:
  "map_of [(''https://www.awwwards.com/sites/beta'', Some ''kept'')]
      ''https://www.awwwards.com/sites/beta'' = Some (Some ''kept'')
   \<and> map_of (results (snd (page_loop web_parser web_fetch 0 None [2]
        \<lparr>results = [(''https://www.awwwards.com/sites/beta'', Some ''kept'')], trace = []\<rparr>)))
      ''https://www.awwwards.com/sites/beta'' = Some (Some ''kept'')
   \<and> scrape_awwwards web_parser web_fetch [] 0 None = (Inr [], [])"
proof -
  note t = results_only_grow [of web_parser web_fetch 0 None]
  have "map_of (results (snd (page_loop web_parser web_fetch 0 None [2]
        \<lparr>results = [(''https://www.awwwards.com/sites/beta'', Some ''kept'')], trace = []\<rparr>)))
      ''https://www.awwwards.com/sites/beta'' = Some (Some ''kept'')"
    unfolding web_page_2 snd_conv
    by (rule t [THEN conjunct2, THEN conjunct2, rule_format, OF web_page_2, THEN conjunct2,
          rule_format]) simp
  moreover have "scrape_awwwards web_parser web_fetch [] 0 None = (Inr [], [])"
    by (rule t [THEN conjunct1])
  ultimately show ?thesis by simp
qed

end
